theory Spec2Isabelle
  imports Main "HOL-Library.Word" "HOL-Library.Monad_Syntax"
begin

unbundle bit_operations_syntax

section \<open>Constant tables of prince.py\<close>

text \<open>
  Python integers are unbounded, so every value of the program is an \<open>int\<close>;
  \<open>x << n\<close> is \<open>push_bit n x\<close>, \<open>x >> n\<close> is \<open>drop_bit n x\<close>, and
  \<open>&\<close>, \<open>|\<close>, \<open>^\<close>, \<open>~\<close> are \<open>AND\<close>, \<open>OR\<close>, \<open>XOR\<close>, \<open>NOT\<close> on \<open>int\<close>
  (two's complement of unbounded length, as in Python).
\<close>

definition M_PRIME :: "int list" where
  "M_PRIME =
    [
     0x0888000000000000, 0x4044000000000000, 0x2202000000000000, 0x1110000000000000,
     0x8880000000000000, 0x0444000000000000, 0x2022000000000000, 0x1101000000000000,
     0x8808000000000000, 0x4440000000000000, 0x0222000000000000, 0x1011000000000000,
     0x8088000000000000, 0x4404000000000000, 0x2220000000000000, 0x0111000000000000,
     0x0000888000000000, 0x0000044400000000, 0x0000202200000000, 0x0000110100000000,
     0x0000880800000000, 0x0000444000000000, 0x0000022200000000, 0x0000101100000000,
     0x0000808800000000, 0x0000440400000000, 0x0000222000000000, 0x0000011100000000,
     0x0000088800000000, 0x0000404400000000, 0x0000220200000000, 0x0000111000000000,
     0x0000000088800000, 0x0000000004440000, 0x0000000020220000, 0x0000000011010000,
     0x0000000088080000, 0x0000000044400000, 0x0000000002220000, 0x0000000010110000,
     0x0000000080880000, 0x0000000044040000, 0x0000000022200000, 0x0000000001110000,
     0x0000000008880000, 0x0000000040440000, 0x0000000022020000, 0x0000000011100000,
     0x0000000000000888, 0x0000000000004044, 0x0000000000002202, 0x0000000000001110,
     0x0000000000008880, 0x0000000000000444, 0x0000000000002022, 0x0000000000001101,
     0x0000000000008808, 0x0000000000004440, 0x0000000000000222, 0x0000000000001011,
     0x0000000000008088, 0x0000000000004404, 0x0000000000002220, 0x0000000000000111
    ]"

definition RC :: "int list" where
  "RC =
    [
     0x0000000000000000, 0x13198a2e03707344, 0xa4093822299f31d0, 0x082efa98ec4e6c89,
     0x452821e638d01377, 0xbe5466cf34e90c6c, 0x7ef84f78fd955cb1, 0x85840851f1ac43aa,
     0xc882d32f25323c54, 0x64a51195e0e3610d, 0xd3b5a399ca0c2399, 0xc0ac29b7c97c50dd
    ]"

definition RC_Apple :: "int list" where
  "RC_Apple =
    [
     0x0000000000000000, 0x13198a2e03707344, 0xa4093822299f31d0, 0x082efa98ec4e6c89,
     0x452821e638d01377, 0xbe5466cf34e90c6c, 0xc0ac29b7c97c50dd, 0x3f84d5b5b5470917,
     0x9216d5d98979fb1b, 0xd1310ba698dfb5ac, 0x2ffd72dbd01adfb7, 0xb8e1afed6a267e97
    ]"

definition S :: "int list" where
  "S = [0xb, 0xf, 0x3, 0x2, 0xa, 0xc, 0x9, 0x1, 0x6, 0x7, 0x8, 0x0, 0xe, 0x5, 0xd, 0x4]"

definition SR :: "nat list" where
  "SR = [0, 5, 10, 15, 4, 9, 14, 3, 8, 13, 2, 7, 12, 1, 6, 11]"

section \<open>Block primitives (prince.py)\<close>

text \<open>
  Python's \<open>list.index\<close>: the position of the first occurrence. Python raises
  ValueError when the value is absent; here an absent value gives the length of the
  list. The program calls \<open>index\<close> only on the tables \<open>S\<close> and \<open>SR\<close> with a value
  between 0 and 15, which both tables contain (lemmas \<open>S_facts\<close> and \<open>SR_facts\<close>),
  so that branch is never taken.
\<close>

fun list_index :: "'a list \<Rightarrow> 'a \<Rightarrow> nat" where
  "list_index [] v = 0"
| "list_index (x # xs) v = (if x = v then 0 else Suc (list_index xs v))"

text \<open>\<open>s\<close>: the loop \<open>for i in range(0, 64, 4)\<close> as a fold over the sixteen offsets.\<close>

definition s :: "int \<Rightarrow> int" where
  "s state =
     fold (\<lambda>i ret. let nybble = drop_bit i state AND 15
                    in ret OR push_bit i (S ! nat nybble))
       [0, 4, 8, 12, 16, 20, 24, 28, 32, 36, 40, 44, 48, 52, 56, 60] 0"

definition s_inv :: "int \<Rightarrow> int" where
  "s_inv state =
     fold (\<lambda>i ret. let nybble = drop_bit i state AND 15
                    in ret OR push_bit i (int (list_index S nybble)))
       [0, 4, 8, 12, 16, 20, 24, 28, 32, 36, 40, 44, 48, 52, 56, 60] 0"

text \<open>
  \<open>extract_nybble\<close> and \<open>set_nybble\<close> are called with \<open>i\<close> between 0 and 15 only
  (a loop index of \<open>range(16)\<close>, an entry of \<open>SR\<close>, or a position in \<open>SR\<close>), so the
  shift amount \<open>(15 - i) * 4\<close> is never negative.
\<close>

definition extract_nybble :: "int \<Rightarrow> nat \<Rightarrow> int" where
  "extract_nybble val i = drop_bit ((15 - i) * 4) val AND 15"

definition set_nybble :: "int \<Rightarrow> nat \<Rightarrow> int" where
  "set_nybble val i = push_bit ((15 - i) * 4) val"

definition sr :: "int \<Rightarrow> int" where
  "sr state =
     fold (\<lambda>i ret. let nybble = extract_nybble state (SR ! i)
                    in ret OR set_nybble nybble i)
       [0..<16] 0"

definition sr_inv :: "int \<Rightarrow> int" where
  "sr_inv state =
     fold (\<lambda>i ret. let sr_inv_i = list_index SR i;
                        nybble = extract_nybble state sr_inv_i
                    in ret OR set_nybble nybble i)
       [0..<16] 0"

definition m_prime :: "int \<Rightarrow> int" where
  "m_prime state =
     fold (\<lambda>i ret. let state_i = drop_bit (63 - i) state AND 1
                    in ret XOR state_i * M_PRIME ! i)
       [0..<64] 0"

definition m :: "int \<Rightarrow> int" where
  "m state = sr (m_prime state)"

definition m_inv :: "int \<Rightarrow> int" where
  "m_inv state = m_prime (sr_inv state)"

section \<open>PRINCE core, PRINCE and Modified PRINCE (prince.py)\<close>

text \<open>
  The round-constant table \<open>rc\<close> is a parameter. The core reads \<open>rc[0]\<close> to \<open>rc[11]\<close>,
  so a table with fewer than twelve entries raises IndexError at the first index it
  lacks: the result is \<open>None\<close>.
\<close>

definition prince_core :: "int \<Rightarrow> int \<Rightarrow> int list \<Rightarrow> int option" where
  "prince_core state k1 rc =
     (if length rc < 12 then None
      else
        let state = state XOR k1;
            state = state XOR rc ! 0;
            state = fold (\<lambda>i state. (m (s state) XOR rc ! i) XOR k1) [1..<6] state;
            state = s state;
            state = m_prime state;
            state = s_inv state;
            state = fold (\<lambda>i state. s_inv (m_inv ((state XOR k1) XOR rc ! i))) [6..<11] state;
            state = state XOR rc ! 11;
            state = state XOR k1
        in Some state)"

text \<open>The middle layer of the core: the three steps between its two loops.\<close>

definition middle :: "int \<Rightarrow> int" where
  "middle state = s_inv (m_prime (s state))"

definition prince :: "int \<Rightarrow> int \<Rightarrow> int \<Rightarrow> int list \<Rightarrow> int option" where
  "prince val k0 k1 rc =
     (let k0_ror_1 = drop_bit 1 k0 OR push_bit 63 (k0 AND 1);
          k0_inv = k0_ror_1 XOR drop_bit 63 k0;
          state = val XOR k0
      in do {
        state \<leftarrow> prince_core state k1 rc;
        Some (state XOR k0_inv)
      })"

text \<open>
  The whitening key that \<open>prince\<close> derives from \<open>k0\<close> (its local \<open>k0_inv\<close>): \<open>k0\<close>
  rotated right by one bit, XORed with the top bit of \<open>k0\<close> moved to bit 0.
\<close>

definition complement :: "int \<Rightarrow> int" where
  "complement k0 = (drop_bit 1 k0 OR push_bit 63 (k0 AND 1)) XOR drop_bit 63 k0"

definition modified_prince :: "int \<Rightarrow> int \<Rightarrow> int \<Rightarrow> int \<Rightarrow> int option" where
  "modified_prince val k0 k1 modifier = prince val k0 (k1 XOR modifier) RC_Apple"

section \<open>Key derivation (apple_kdf.py)\<close>

text \<open>The two modifiers that \<open>kdf\<close> builds from the usage code.\<close>

definition kdf_modifier1 :: "int \<Rightarrow> int" where
  "kdf_modifier1 usage = (push_bit 2 (usage AND 0b1000) OR 0b00000) OR (usage AND 0b111)"

definition kdf_modifier2 :: "int \<Rightarrow> int" where
  "kdf_modifier2 usage = (push_bit 2 (usage AND 0b1000) OR 0b01000) OR (usage AND 0b111)"

definition kdf :: "int \<Rightarrow> int \<Rightarrow> int \<Rightarrow> int \<Rightarrow> int \<Rightarrow> (int \<times> int) option" where
  "kdf ikey_hi ikey_lo data_hi data_lo usage =
     (let modifier1 = kdf_modifier1 usage in do {
        tmp1 \<leftarrow> modified_prince data_hi ikey_hi ikey_lo modifier1;
        okey_hi \<leftarrow> modified_prince (tmp1 XOR data_lo) ikey_hi ikey_lo modifier1;
        let modifier2 = kdf_modifier2 usage in do {
          tmp2 \<leftarrow> modified_prince data_hi ikey_hi ikey_lo modifier2;
          okey_lo \<leftarrow> modified_prince (tmp2 XOR data_lo) ikey_hi ikey_lo modifier2;
          Some (okey_hi, okey_lo)
        }
      })"

section \<open>Pointer authentication (feat_pauth.py)\<close>

text \<open>
  Python's \<open>x << n\<close> raises ValueError for a negative \<open>n\<close>. The shift counts of
  \<open>_BitMask\<close> come from the caller's \<open>bottom_pac_bit\<close>, so the raise is a branch of
  the model: \<open>None\<close>.
\<close>

definition shl :: "int \<Rightarrow> int \<Rightarrow> int option" where
  "shl x n = (if n < 0 then None else Some (push_bit (nat n) x))"

text \<open>\<open>_BitMask\<close> of the source.\<close>

definition BitMask :: "int \<Rightarrow> int \<Rightarrow> int option" where
  "BitMask bit_from bit_to = do {
     one_shifted \<leftarrow> shl 1 (bit_to - bit_from + 1);
     shl (one_shifted - 1) bit_from
   }"

text \<open>\<open>_PACMask\<close> of the source.\<close>

definition PACMask :: "int \<Rightarrow> bool \<Rightarrow> int option" where
  "PACMask bottom_pac_bit tbi = do {
     ret \<leftarrow> BitMask bottom_pac_bit 54;
     if \<not> tbi then do {
       high \<leftarrow> BitMask 56 63;
       Some (ret OR high)
     } else Some ret
   }"

definition Strip :: "int \<Rightarrow> int \<Rightarrow> bool \<Rightarrow> int option" where
  "Strip ptr bottom_pac_bit tbi = do {
     pac_mask \<leftarrow> PACMask bottom_pac_bit tbi;
     let ret = ptr AND NOT pac_mask in
     Some (if ptr AND push_bit 55 1 \<noteq> 0 then ret OR pac_mask else ret)
   }"

definition AddPAC ::
  "int \<Rightarrow> int \<Rightarrow> int \<Rightarrow> int \<Rightarrow> int \<Rightarrow> bool \<Rightarrow> bool \<Rightarrow> bool \<Rightarrow> int option" where
  "AddPAC ptr k_hi k_lo modifier bottom_pac_bit tbi have_enhanced_pac have_enhanced_pac2 =
     (let top_bit = (if tbi then 55 else 63) in do {
        original_ptr \<leftarrow> Strip ptr bottom_pac_bit tbi;
        extension_mask \<leftarrow> BitMask bottom_pac_bit top_bit;
        let extension_bits = ptr AND extension_mask;
            input_is_poisoned = (extension_bits \<noteq> 0 \<and> extension_bits \<noteq> extension_mask) in do {
          pac \<leftarrow>
            (if input_is_poisoned \<and> have_enhanced_pac then Some 0
             else do {
               pac \<leftarrow> modified_prince original_ptr k_hi k_lo modifier;
               Some (if input_is_poisoned \<and> \<not> have_enhanced_pac2
                     then pac XOR push_bit (nat (top_bit - 1)) 1 else pac)
             });
          pac_mask \<leftarrow> PACMask bottom_pac_bit tbi;
          Some (if have_enhanced_pac2 then ptr XOR (pac AND pac_mask)
                else (ptr AND NOT pac_mask) OR (pac AND pac_mask))
        }
      })"

definition Auth ::
  "int \<Rightarrow> int \<Rightarrow> int \<Rightarrow> bool \<Rightarrow> int \<Rightarrow> int \<Rightarrow> bool \<Rightarrow> bool \<Rightarrow> int option" where
  "Auth ptr k_hi k_lo b_key modifier bottom_pac_bit tbi have_enhanced_pac2 = do {
     original_ptr \<leftarrow> Strip ptr bottom_pac_bit tbi;
     pac \<leftarrow> modified_prince original_ptr k_hi k_lo modifier;
     pac_mask \<leftarrow> PACMask bottom_pac_bit tbi;
     if have_enhanced_pac2 then Some (ptr XOR (pac AND pac_mask))
     else Some (if ptr AND pac_mask \<noteq> pac AND pac_mask then
                  let error_code = (if b_key then 0b10 else 0b01);
                      error_code_shift = (if tbi then 53 else 61)
                  in (original_ptr AND NOT (push_bit error_code_shift 0b11))
                       OR push_bit error_code_shift error_code
                else original_ptr)
   }"

section \<open>Properties of the block primitives and of PRINCE\<close>

subsection \<open>Nybble tables, substitution and nybble permutation\<close>

lemma bit_fold_or_push:
  "bit (fold (\<lambda>i ret. ret OR push_bit (off i) (f i)) idxs (acc::int)) n \<longleftrightarrow>
     bit acc n \<or> (\<exists>i\<in>set idxs. off i \<le> n \<and> bit (f i) (n - off i))"
  by (induction idxs arbitrary: acc) (auto simp add: bit_or_iff bit_push_bit_iff)

lemma bit_nybble: "bit (drop_bit j (x::int) AND 15) t \<longleftrightarrow> t < 4 \<and> bit x (j + t)"
proof -
  have "(15::int) = mask 4" by (simp add: mask_eq_exp_minus_1)
  then show ?thesis
    by (simp only: bit_and_iff bit_mask_iff bit_drop_bit_eq) (auto simp add: possible_bit_def)
qed

lemma nybble_range: "0 \<le> drop_bit j (x::int) AND 15 \<and> drop_bit j x AND 15 < 16"
proof -
  have "(15::int) = mask 4" by (simp add: mask_eq_exp_minus_1)
  then have "drop_bit j x AND 15 = take_bit 4 (drop_bit j x)"
    by (simp only: take_bit_eq_mask)
  then show ?thesis
    using take_bit_int_less_exp [of 4 "drop_bit j x"] by simp
qed

lemma bit_below_16:
  assumes "0 \<le> (v::int)" "v < 16" "bit v t"
  shows "t < 4"
proof -
  from assms have "take_bit 4 v = v" by (simp add: take_bit_int_eq_self)
  with assms(3) have "bit (take_bit 4 v) t" by simp
  then show ?thesis by (simp add: bit_take_bit_iff)
qed

lemma upt_16: "[0..<16] = [0, 1, 2, 3, 4, 5, 6, 7, 8, 9, 10, 11, 12, 13, 14, 15::nat]"
  by (simp add: upt_rec)

lemma S_facts:
  "\<forall>k\<in>set [0..<16]. 0 \<le> S ! k \<and> S ! k < 16 \<and> list_index S (S ! k) = k
      \<and> list_index S (int k) < 16 \<and> S ! list_index S (int k) = int k"
  unfolding upt_16 by (simp add: S_def)

lemma SR_facts:
  "\<forall>k\<in>set [0..<16]. SR ! k < 16 \<and> list_index SR (SR ! k) = k
      \<and> list_index SR k < 16 \<and> SR ! list_index SR k = k"
  unfolding upt_16 by (simp add: SR_def)

lemma S_nth_range: "k < 16 \<Longrightarrow> 0 \<le> S ! k \<and> S ! k < 16"
  using S_facts by simp

lemma S_index_nth: "k < 16 \<Longrightarrow> list_index S (S ! k) = k"
  using S_facts by simp

lemma S_nth_index:
  assumes "0 \<le> v" "v < 16"
  shows "list_index S v < 16 \<and> S ! list_index S v = v"
proof -
  from assms have "nat v < 16" "int (nat v) = v" by simp_all
  with S_facts [rule_format, of "nat v"] show ?thesis by simp
qed

lemma SR_nth_range: "k < 16 \<Longrightarrow> SR ! k < 16"
  using SR_facts by simp

lemma SR_index_nth: "k < 16 \<Longrightarrow> list_index SR (SR ! k) = k"
  using SR_facts by simp

lemma SR_nth_index: "k < 16 \<Longrightarrow> list_index SR k < 16 \<and> SR ! list_index SR k = k"
  using SR_facts by simp

lemma offsets_eq:
  "[0, 4, 8, 12, 16, 20, 24, 28, 32, 36, 40, 44, 48, 52, 56, 60] = map (\<lambda>q. 4 * q) [0..<16::nat]"
  by (simp add: upt_rec)

lemma nat_nybble_lt: "nat (drop_bit j (x::int) AND 15) < 16"
  using nybble_range [of j x] by linarith

lemma bit_nybble_fold:
  assumes small: "\<And>i. 0 \<le> f i \<and> f i < (16::int)"
  shows "bit (fold (\<lambda>i ret. ret OR push_bit i (f i))
            [0, 4, 8, 12, 16, 20, 24, 28, 32, 36, 40, 44, 48, 52, 56, 60] 0) n \<longleftrightarrow>
         n < 64 \<and> bit (f (4 * (n div 4))) (n mod 4)"
proof -
  have "bit (fold (\<lambda>i ret. ret OR push_bit i (f i)) (map (\<lambda>q. 4 * q) [0..<16]) 0) n \<longleftrightarrow>
      (\<exists>q<16. 4 * q \<le> n \<and> bit (f (4 * q)) (n - 4 * q))"
    using bit_fold_or_push [of "\<lambda>i. i" f "map (\<lambda>q. 4 * q) [0..<16]" 0 n] by auto
  also have "\<dots> \<longleftrightarrow> n < 64 \<and> bit (f (4 * (n div 4))) (n mod 4)"
  proof
    assume "\<exists>q<16. 4 * q \<le> n \<and> bit (f (4 * q)) (n - 4 * q)"
    then obtain q where q: "q < 16" "4 * q \<le> n" "bit (f (4 * q)) (n - 4 * q)" by blast
    define r where "r = n - 4 * q"
    from small [of "4 * q"] q(3) have r: "r < 4" unfolding r_def by (auto intro: bit_below_16)
    from q(2) have n: "n = r + 4 * q" by (simp add: r_def)
    from r have "n div 4 = q" "n mod 4 = r" by (simp_all add: n)
    moreover from r q(1) have "n < 64" by (simp add: n)
    ultimately show "n < 64 \<and> bit (f (4 * (n div 4))) (n mod 4)"
      using q(3) by (simp add: r_def)
  next
    assume a: "n < 64 \<and> bit (f (4 * (n div 4))) (n mod 4)"
    then have d: "n div 4 < 16" by (simp add: div_less_iff_less_mult)
    have l: "4 * (n div 4) \<le> n" by simp
    have e: "n - 4 * (n div 4) = n mod 4"
      by (simp add: minus_mult_div_eq_mod)
    from a have "bit (f (4 * (n div 4))) (n - 4 * (n div 4))" by (simp only: e)
    with d l show "\<exists>q<16. 4 * q \<le> n \<and> bit (f (4 * q)) (n - 4 * q)" by blast
  qed
  finally show ?thesis by (simp only: offsets_eq)
qed

lemma bit_s:
  "bit (s x) n \<longleftrightarrow> n < 64 \<and> bit (S ! nat (drop_bit (4 * (n div 4)) x AND 15)) (n mod 4)"
  unfolding s_def Let_def
  by (rule bit_nybble_fold) (simp add: S_nth_range nat_nybble_lt)

lemma bit_s_inv:
  "bit (s_inv x) n \<longleftrightarrow>
     n < 64 \<and> bit (int (list_index S (drop_bit (4 * (n div 4)) x AND 15))) (n mod 4)"
  unfolding s_inv_def Let_def
  by (rule bit_nybble_fold) (use S_nth_index nybble_range in auto)


lemma nybble_of_s:
  assumes "q < 16"
  shows "drop_bit (4 * q) (s x) AND 15 = S ! nat (drop_bit (4 * q) x AND 15)"
proof (rule bit_eqI)
  fix t
  have small: "bit (S ! nat (drop_bit (4 * q) x AND 15)) t \<Longrightarrow> t < 4"
    using S_nth_range [OF nat_nybble_lt, of "4 * q" x] by (auto intro: bit_below_16)
  have "t < 4 \<Longrightarrow> (4 * q + t) div 4 = q \<and> (4 * q + t) mod 4 = t \<and> 4 * q + t < 64"
    using assms by simp
  then show "bit (drop_bit (4 * q) (s x) AND 15) t = bit (S ! nat (drop_bit (4 * q) x AND 15)) t"
    using small by (auto simp add: bit_nybble bit_s)
qed

lemma nybble_of_s_inv:
  assumes "q < 16"
  shows "drop_bit (4 * q) (s_inv x) AND 15 = int (list_index S (drop_bit (4 * q) x AND 15))"
proof (rule bit_eqI)
  fix t
  have "list_index S (drop_bit (4 * q) x AND 15) < 16"
    using S_nth_index nybble_range by blast
  then have "0 \<le> int (list_index S (drop_bit (4 * q) x AND 15))"
    and "int (list_index S (drop_bit (4 * q) x AND 15)) < 16"
    by simp_all
  then have small: "bit (int (list_index S (drop_bit (4 * q) x AND 15))) t \<Longrightarrow> t < 4"
    by (rule bit_below_16)
  have "t < 4 \<Longrightarrow> (4 * q + t) div 4 = q \<and> (4 * q + t) mod 4 = t \<and> 4 * q + t < 64"
    using assms by simp
  then show "bit (drop_bit (4 * q) (s_inv x) AND 15) t =
      bit (int (list_index S (drop_bit (4 * q) x AND 15))) t"
    using small by (auto simp add: bit_nybble bit_s_inv)
qed

lemma bit_nybble_at: "bit (drop_bit (4 * (n div 4)) (x::int) AND 15) (n mod 4) = bit x n"
  by (simp add: bit_nybble)

lemma s_inv_s: "s_inv (s x) = take_bit 64 x"
proof (rule bit_eqI)
  fix n
  show "bit (s_inv (s x)) n = bit (take_bit 64 x) n"
  proof (cases "n < 64")
    case True
    then have q: "n div 4 < 16" by (simp add: div_less_iff_less_mult)
    have "list_index S (S ! nat (drop_bit (4 * (n div 4)) x AND 15)) =
        nat (drop_bit (4 * (n div 4)) x AND 15)"
      by (rule S_index_nth [OF nat_nybble_lt])
    moreover have "int (nat (drop_bit (4 * (n div 4)) x AND 15)) = drop_bit (4 * (n div 4)) x AND 15"
      using nybble_range [of "4 * (n div 4)" x] by simp
    ultimately show ?thesis
      using True by (simp add: bit_s_inv nybble_of_s [OF q] bit_nybble_at bit_take_bit_iff)
  next
    case False
    then show ?thesis by (simp add: bit_s_inv bit_take_bit_iff)
  qed
qed

lemma s_s_inv: "s (s_inv x) = take_bit 64 x"
proof (rule bit_eqI)
  fix n
  show "bit (s (s_inv x)) n = bit (take_bit 64 x) n"
  proof (cases "n < 64")
    case True
    then have q: "n div 4 < 16" by (simp add: div_less_iff_less_mult)
    have "S ! list_index S (drop_bit (4 * (n div 4)) x AND 15) = drop_bit (4 * (n div 4)) x AND 15"
      using S_nth_index nybble_range by blast
    then show ?thesis
      using True by (simp add: bit_s nybble_of_s_inv [OF q] bit_nybble_at bit_take_bit_iff)
  next
    case False
    then show ?thesis by (simp add: bit_s bit_take_bit_iff)
  qed
qed

lemma take_bit_s: "take_bit 64 (s x) = s x"
  by (rule bit_eqI) (auto simp add: bit_take_bit_iff bit_s)

lemma take_bit_s_inv: "take_bit 64 (s_inv x) = s_inv x"
  by (rule bit_eqI) (auto simp add: bit_take_bit_iff bit_s_inv)


lemma extract_nybble_range: "0 \<le> extract_nybble x i \<and> extract_nybble x i < 16"
  unfolding extract_nybble_def by (rule nybble_range)

lemma bit_extract_nybble: "bit (extract_nybble x i) t \<longleftrightarrow> t < 4 \<and> bit x ((15 - i) * 4 + t)"
  unfolding extract_nybble_def by (rule bit_nybble)

lemma bit_set_nybble_fold:
  assumes small: "\<And>i. 0 \<le> f i \<and> f i < (16::int)"
  shows "bit (fold (\<lambda>i ret. ret OR set_nybble (f i) i) [0..<16] 0) n \<longleftrightarrow>
         n < 64 \<and> bit (f (15 - n div 4)) (n mod 4)"
proof -
  have "bit (fold (\<lambda>i ret. ret OR set_nybble (f i) i) [0..<16] 0) n \<longleftrightarrow>
      (\<exists>i<16. (15 - i) * 4 \<le> n \<and> bit (f i) (n - (15 - i) * 4))"
    unfolding set_nybble_def
    using bit_fold_or_push [of "\<lambda>i. (15 - i) * 4" f "[0..<16]" 0 n] by auto
  also have "\<dots> \<longleftrightarrow> n < 64 \<and> bit (f (15 - n div 4)) (n mod 4)"
  proof
    assume "\<exists>i<16. (15 - i) * 4 \<le> n \<and> bit (f i) (n - (15 - i) * 4)"
    then obtain i where i: "i < 16" "(15 - i) * 4 \<le> n" "bit (f i) (n - (15 - i) * 4)" by blast
    define r where "r = n - (15 - i) * 4"
    from small [of i] i(3) have r: "r < 4" unfolding r_def by (auto intro: bit_below_16)
    from i(2) have n: "n = r + (15 - i) * 4" by (simp add: r_def)
    from r have "n div 4 = 15 - i" "n mod 4 = r" by (simp_all add: n)
    moreover from i(1) have "15 - (15 - i) = i" by simp
    moreover from r have "n < 64" by (simp add: n)
    ultimately show "n < 64 \<and> bit (f (15 - n div 4)) (n mod 4)"
      using i(3) by (simp add: r_def)
  next
    assume a: "n < 64 \<and> bit (f (15 - n div 4)) (n mod 4)"
    then have d: "n div 4 < 16" by (simp add: div_less_iff_less_mult)
    then have c: "15 - (15 - n div 4) = n div 4" by simp
    have l: "(15 - (15 - n div 4)) * 4 \<le> n" unfolding c by simp
    have e: "n - (15 - (15 - n div 4)) * 4 = n mod 4"
      unfolding c by (simp add: minus_div_mult_eq_mod)
    from a have "bit (f (15 - n div 4)) (n - (15 - (15 - n div 4)) * 4)" by (simp only: e)
    moreover have "15 - n div 4 < 16" by simp
    ultimately show "\<exists>i<16. (15 - i) * 4 \<le> n \<and> bit (f i) (n - (15 - i) * 4)"
      using l by blast
  qed
  finally show ?thesis .
qed

lemma extract_of_fold:
  assumes j: "j < 16" and small: "\<And>i. 0 \<le> f i \<and> f i < (16::int)"
  shows "extract_nybble (fold (\<lambda>i ret. ret OR set_nybble (f i) i) [0..<16] 0) j = f j"
proof (rule bit_eqI)
  fix t
  have s4: "bit (f j) t \<Longrightarrow> t < 4"
    using small [of j] by (auto intro: bit_below_16)
  have "t < 4 \<Longrightarrow> ((15 - j) * 4 + t) div 4 = 15 - j \<and> ((15 - j) * 4 + t) mod 4 = t
      \<and> (15 - j) * 4 + t < 64 \<and> 15 - (15 - j) = j"
    using j by simp
  then show "bit (extract_nybble (fold (\<lambda>i ret. ret OR set_nybble (f i) i) [0..<16] 0) j) t
      = bit (f j) t"
    using s4 by (auto simp add: bit_extract_nybble bit_set_nybble_fold [OF small])
qed

lemma fold_extract_nybble:
  "fold (\<lambda>i ret. ret OR set_nybble (extract_nybble x i) i) [0..<16] 0 = take_bit 64 x"
proof (rule bit_eqI)
  fix n :: nat
  have "n < 64 \<Longrightarrow> (15 - (15 - n div 4)) * 4 + n mod 4 = n"
  proof -
    assume "n < 64"
    then have "n div 4 < 16" by (simp add: div_less_iff_less_mult)
    then have "15 - (15 - n div 4) = n div 4" by simp
    then show ?thesis by simp
  qed
  then show "bit (fold (\<lambda>i ret. ret OR set_nybble (extract_nybble x i) i) [0..<16] 0) n
      = bit (take_bit 64 x) n"
    by (auto simp add: bit_set_nybble_fold [OF extract_nybble_range] bit_extract_nybble
        bit_take_bit_iff)
qed

lemma sr_alt: "sr x = fold (\<lambda>i ret. ret OR set_nybble (extract_nybble x (SR ! i)) i) [0..<16] 0"
  by (simp add: sr_def)

lemma sr_inv_alt:
  "sr_inv x = fold (\<lambda>i ret. ret OR set_nybble (extract_nybble x (list_index SR i)) i) [0..<16] 0"
  by (simp add: sr_inv_def)

lemma sr_inv_sr: "sr_inv (sr x) = take_bit 64 x"
proof -
  have "sr_inv (sr x) = fold (\<lambda>i ret. ret OR set_nybble (extract_nybble x i) i) [0..<16] 0"
    unfolding sr_inv_alt [of "sr x"]
  proof (rule fold_cong [OF refl refl])
    fix i assume "i \<in> set [0..<16]"
    then have i: "i < 16" by simp
    from SR_nth_index [OF i] have "list_index SR i < 16" "SR ! list_index SR i = i" by simp_all
    then have "extract_nybble (sr x) (list_index SR i) = extract_nybble x i"
      unfolding sr_alt by (simp add: extract_of_fold extract_nybble_range)
    then show "(\<lambda>ret. ret OR set_nybble (extract_nybble (sr x) (list_index SR i)) i)
        = (\<lambda>ret. ret OR set_nybble (extract_nybble x i) i)"
      by simp
  qed
  then show ?thesis by (simp only: fold_extract_nybble)
qed

lemma sr_sr_inv: "sr (sr_inv x) = take_bit 64 x"
proof -
  have "sr (sr_inv x) = fold (\<lambda>i ret. ret OR set_nybble (extract_nybble x i) i) [0..<16] 0"
    unfolding sr_alt [of "sr_inv x"]
  proof (rule fold_cong [OF refl refl])
    fix i assume "i \<in> set [0..<16]"
    then have i: "i < 16" by simp
    from SR_nth_range [OF i] SR_index_nth [OF i]
    have "extract_nybble (sr_inv x) (SR ! i) = extract_nybble x i"
      unfolding sr_inv_alt by (simp add: extract_of_fold extract_nybble_range)
    then show "(\<lambda>ret. ret OR set_nybble (extract_nybble (sr_inv x) (SR ! i)) i)
        = (\<lambda>ret. ret OR set_nybble (extract_nybble x i) i)"
      by simp
  qed
  then show ?thesis by (simp only: fold_extract_nybble)
qed

lemma take_bit_sr: "take_bit 64 (sr x) = sr x"
  unfolding sr_alt
  by (rule bit_eqI)
    (auto simp add: bit_take_bit_iff bit_set_nybble_fold [OF extract_nybble_range])

lemma take_bit_sr_inv: "take_bit 64 (sr_inv x) = sr_inv x"
  unfolding sr_inv_alt
  by (rule bit_eqI)
    (auto simp add: bit_take_bit_iff bit_set_nybble_fold [OF extract_nybble_range])

subsection \<open>The linear layer\<close>

lemma bit_and_1: "drop_bit k (x::int) AND 1 = of_bool (bit x k)"
  by (simp add: and_one_eq bit_iff_odd_drop_bit mod_2_eq_odd)

lemma m_prime_alt:
  "m_prime x = fold (\<lambda>i ret. ret XOR of_bool (bit x (63 - i)) * M_PRIME ! i) [0..<64] 0"
  by (simp add: m_prime_def bit_and_1)

lemma fold_xor_split:
  "fold (\<lambda>i ret. ret XOR of_bool (P i \<noteq> Q i) * v i) idxs (p XOR q) =
   fold (\<lambda>i ret. ret XOR of_bool (P i) * v i) idxs p
     XOR fold (\<lambda>i ret. ret XOR of_bool (Q i) * (v i :: int)) idxs q"
proof (induction idxs arbitrary: p q)
  case Nil
  show ?case by simp
next
  case (Cons a idxs)
  have eq: "(p XOR q) XOR of_bool (P a \<noteq> Q a) * v a =
      (p XOR of_bool (P a) * v a) XOR (q XOR of_bool (Q a) * v a)"
    by (cases "P a"; cases "Q a") (simp_all add: ac_simps)
  show ?case
    unfolding fold_Cons comp_apply eq by (rule Cons.IH)
qed

lemma m_prime_xor: "m_prime (a XOR b) = m_prime a XOR m_prime b"
  unfolding m_prime_alt bit_xor_iff
  using fold_xor_split [of "\<lambda>i. bit a (63 - i)" "\<lambda>i. bit b (63 - i)" "\<lambda>i. M_PRIME ! i" "[0..<64]" 0 0]
  by simp

lemma m_prime_0: "m_prime 0 = 0"
  using m_prime_xor [of 0 0] by simp

lemma m_prime_of_bool: "m_prime (of_bool c * v) = of_bool c * m_prime v"
  by (cases c) (simp_all add: m_prime_0)

lemma m_prime_fold:
  "m_prime (fold (\<lambda>i ret. ret XOR of_bool (c i) * v i) idxs acc) =
   fold (\<lambda>i ret. ret XOR of_bool (c i) * m_prime (v i)) idxs (m_prime acc)"
  by (induction idxs arbitrary: acc) (simp_all add: m_prime_xor m_prime_of_bool)

lemma bit_fold_xor_exp:
  assumes "distinct (map k idxs)"
  shows "bit (fold (\<lambda>i ret. ret XOR of_bool (c i) * 2 ^ k i) idxs (acc::int)) n \<longleftrightarrow>
    (bit acc n \<noteq> (\<exists>i\<in>set idxs. k i = n \<and> c i))"
  using assms
proof (induction idxs arbitrary: acc)
  case Nil
  show ?case by simp
next
  case (Cons a idxs)
  from Cons.prems have d: "distinct (map k idxs)" and "k a \<notin> k ` set idxs"
    by simp_all
  then have na: "\<forall>i\<in>set idxs. k i \<noteq> k a"
    by (metis imageI)
  have step: "bit (acc XOR of_bool (c a) * 2 ^ k a) n \<longleftrightarrow> (bit acc n \<noteq> (c a \<and> k a = n))"
    by (cases "c a") (auto simp add: bit_xor_iff bit_exp_iff)
  have "bit (fold (\<lambda>i ret. ret XOR of_bool (c i) * 2 ^ k i) idxs
          (acc XOR of_bool (c a) * 2 ^ k a)) n \<longleftrightarrow>
      ((bit acc n \<noteq> (c a \<and> k a = n)) \<noteq> (\<exists>i\<in>set idxs. k i = n \<and> c i))"
    unfolding Cons.IH [OF d] step ..
  also have "\<dots> \<longleftrightarrow> (bit acc n \<noteq> (\<exists>i\<in>set (a # idxs). k i = n \<and> c i))"
    using na by auto
  finally show ?case by simp
qed

lemma fold_bits_take_bit:
  "fold (\<lambda>i ret. ret XOR of_bool (bit x (63 - i)) * 2 ^ (63 - i)) [0..<64] 0 = take_bit 64 (x::int)"
proof (rule bit_eqI)
  fix n
  have "inj_on (\<lambda>i::nat. 63 - i) (set [0..<64])"
    by (auto simp add: inj_on_def)
  then have d: "distinct (map (\<lambda>i::nat. 63 - i) [0..<64])"
    by (simp add: distinct_map)
  have "(\<exists>i\<in>set [0..<64]. 63 - i = n \<and> bit x (63 - i)) \<longleftrightarrow> n < 64 \<and> bit x n"
  proof
    assume "\<exists>i\<in>set [0..<64]. 63 - i = n \<and> bit x (63 - i)"
    then show "n < 64 \<and> bit x n" by auto
  next
    assume "n < 64 \<and> bit x n"
    then have "63 - n \<in> set [0..<64] \<and> 63 - (63 - n) = n \<and> bit x (63 - (63 - n))" by simp
    then show "\<exists>i\<in>set [0..<64]. 63 - i = n \<and> bit x (63 - i)" by blast
  qed
  then show "bit (fold (\<lambda>i ret. ret XOR of_bool (bit x (63 - i)) * 2 ^ (63 - i)) [0..<64] (0::int)) n
      = bit (take_bit 64 x) n"
    using bit_fold_xor_exp [OF d, of "\<lambda>i. bit x (63 - i)" 0 n]
    by (simp add: bit_take_bit_iff)
qed

lemma m_prime_rows:
  "map m_prime M_PRIME = map (\<lambda>i. 2 ^ (63 - i)) [0..<64]"
  by code_simp


lemma M_PRIME_length: "length M_PRIME = 64"
  by (simp add: M_PRIME_def)

lemma m_prime_row:
  assumes "i < 64"
  shows "m_prime (M_PRIME ! i) = 2 ^ (63 - i)"
proof -
  have "m_prime (M_PRIME ! i) = map m_prime M_PRIME ! i"
    using assms by (simp add: M_PRIME_length)
  also have "\<dots> = map (\<lambda>i. 2 ^ (63 - i)) [0..<64] ! i"
    by (simp only: m_prime_rows)
  also have "\<dots> = 2 ^ (63 - i)"
    using assms by simp
  finally show ?thesis .
qed

lemma m_prime_m_prime: "m_prime (m_prime x) = take_bit 64 x"
proof -
  have "m_prime (m_prime x) =
      fold (\<lambda>i ret. ret XOR of_bool (bit x (63 - i)) * m_prime (M_PRIME ! i)) [0..<64] 0"
    unfolding m_prime_alt [of x] m_prime_fold m_prime_0 ..
  also have "\<dots> = fold (\<lambda>i ret. ret XOR of_bool (bit x (63 - i)) * 2 ^ (63 - i)) [0..<64] 0"
  proof (rule fold_cong [OF refl refl])
    fix i assume "i \<in> set [0..<64]"
    then have "m_prime (M_PRIME ! i) = 2 ^ (63 - i)" by (simp add: m_prime_row)
    then show "(\<lambda>ret. ret XOR of_bool (bit x (63 - i)) * m_prime (M_PRIME ! i))
        = (\<lambda>ret. ret XOR of_bool (bit x (63 - i)) * 2 ^ (63 - i))"
      by simp
  qed
  also have "\<dots> = take_bit 64 x" by (rule fold_bits_take_bit)
  finally show ?thesis .
qed

lemma M_PRIME_range: "\<forall>v\<in>set M_PRIME. 0 \<le> v \<and> v < 2 ^ 64"
  by (simp add: M_PRIME_def)

lemma take_bit_fold_xor:
  assumes "take_bit 64 acc = acc" and "\<And>i. i \<in> set idxs \<Longrightarrow> take_bit 64 (v i) = v i"
  shows "take_bit 64 (fold (\<lambda>i ret. ret XOR of_bool (c i) * v i) idxs (acc::int)) =
         fold (\<lambda>i ret. ret XOR of_bool (c i) * v i) idxs acc"
  using assms
proof (induction idxs arbitrary: acc)
  case Nil
  then show ?case by simp
next
  case (Cons a idxs)
  have "take_bit 64 (acc XOR of_bool (c a) * v a) = acc XOR of_bool (c a) * v a"
    using Cons.prems(1) Cons.prems(2) [of a] by (cases "c a") (simp_all add: take_bit_xor)
  then show ?case
    unfolding fold_Cons comp_apply using Cons.prems(2) by (intro Cons.IH) simp_all
qed

lemma take_bit_m_prime: "take_bit 64 (m_prime x) = m_prime x"
  unfolding m_prime_alt
proof (rule take_bit_fold_xor)
  fix i assume "i \<in> set [0..<64]"
  then have "M_PRIME ! i \<in> set M_PRIME" by (simp add: M_PRIME_length)
  with M_PRIME_range have "0 \<le> M_PRIME ! i \<and> M_PRIME ! i < 2 ^ 64" by blast
  then show "take_bit 64 (M_PRIME ! i) = M_PRIME ! i" by (simp add: take_bit_int_eq_self)
qed simp

lemma m_inv_m: "m_inv (m x) = take_bit 64 x"
  by (simp add: m_inv_def m_def sr_inv_sr take_bit_m_prime m_prime_m_prime)

lemma m_m_inv: "m (m_inv x) = take_bit 64 x"
  by (simp add: m_inv_def m_def m_prime_m_prime take_bit_sr_inv sr_sr_inv)

lemma take_bit_m_inv: "take_bit 64 (m_inv x) = m_inv x"
  by (simp add: m_inv_def take_bit_m_prime)

lemma take_bit_m: "take_bit 64 (m x) = m x"
  by (simp add: m_def take_bit_sr)

lemma middle_middle: "middle (middle x) = take_bit 64 x"
  by (simp add: middle_def s_s_inv take_bit_m_prime m_prime_m_prime take_bit_s s_inv_s)

text \<open>
  Claim C6. For every 64-bit state \<open>x\<close>, the middle layer of the PRINCE core (lines
  195 to 197 of \<open>prince_core\<close>: \<open>s\<close>, then \<open>m_prime\<close>, then \<open>s_inv\<close>) is an involution,
  and so is \<open>m_prime\<close> itself.
\<close>

theorem middle_involution:
  assumes "0 \<le> x" "x < 2 ^ 64"
  shows "middle (middle x) = x \<and> m_prime (m_prime x) = x"
  using assms by (simp add: middle_middle m_prime_m_prime take_bit_int_eq_self)

subsection \<open>The core under the reflected key\<close>

lemma upt_1_6: "[Suc 0..<6] = [1, 2, 3, 4, 5]"
  by (simp add: upt_rec)

lemma upt_6_11: "[6..<11] = [6, 7, 8, 9, 10]"
  by (simp add: upt_rec)

lemma prince_core_unroll:
  "prince_core x k [c0, c1, c2, c3, c4, c5, c6, c7, c8, c9, c10, c11] =
   Some ((s_inv (m_inv ((s_inv (m_inv ((s_inv (m_inv ((s_inv (m_inv ((s_inv (m_inv ((
     s_inv (m_prime (s (
        (m (s ((m (s ((m (s ((m (s ((m (s ((x XOR k) XOR c0)) XOR c1) XOR k)) XOR c2) XOR k))
          XOR c3) XOR k)) XOR c4) XOR k)) XOR c5) XOR k
     ))) XOR k) XOR c6)) XOR k) XOR c7)) XOR k) XOR c8)) XOR k) XOR c9)) XOR k) XOR c10))
       XOR c11) XOR k)"
  by (simp add: prince_core_def upt_1_6 upt_6_11)

lemma prince_alt:
  "prince val k0 k1 rc = map_option (\<lambda>st. st XOR complement k0) (prince_core (val XOR k0) k1 rc)"
  by (cases "prince_core (val XOR k0) k1 rc") (simp_all add: prince_def complement_def)

lemma undo_backward_round:
  assumes "take_bit 64 v = v" "take_bit 64 k = k" "take_bit 64 a = a" "take_bit 64 c = c"
  shows "(m (s (s_inv (m_inv ((v XOR k) XOR (a XOR c))))) XOR c) XOR (k XOR a) = v"
proof -
  have "take_bit 64 ((v XOR k) XOR (a XOR c)) = (v XOR k) XOR (a XOR c)"
    using assms by (simp add: take_bit_xor)
  then have "m (s (s_inv (m_inv ((v XOR k) XOR (a XOR c))))) = (v XOR k) XOR (a XOR c)"
    by (simp add: s_s_inv take_bit_m_inv m_m_inv)
  moreover have "(((v XOR k) XOR (a XOR c)) XOR c) XOR (k XOR a) = v"
    by (rule bit_eqI) (auto simp add: bit_xor_iff)
  ultimately show ?thesis by simp
qed

lemma undo_forward_round:
  assumes "take_bit 64 u = u"
  shows "s_inv (m_inv ((((m (s u) XOR c) XOR k) XOR (k XOR a)) XOR (a XOR c))) = u"
proof -
  have "(((m (s u) XOR c) XOR k) XOR (k XOR a)) XOR (a XOR c) = m (s u)"
    by (rule bit_eqI) (auto simp add: bit_xor_iff)
  then show ?thesis using assms by (simp add: m_inv_m take_bit_s s_inv_s)
qed


lemma prince_core_reflection:
  fixes x k a c0 c1 c2 c3 c4 c5 :: int
  assumes x: "take_bit 64 x = x" and k: "take_bit 64 k = k" and a: "take_bit 64 a = a"
    and c: "take_bit 64 c0 = c0" "take_bit 64 c1 = c1" "take_bit 64 c2 = c2"
      "take_bit 64 c3 = c3" "take_bit 64 c4 = c4" "take_bit 64 c5 = c5"
    and rc: "rc = [c0, c1, c2, c3, c4, c5,
                   a XOR c5, a XOR c4, a XOR c3, a XOR c2, a XOR c1, a XOR c0]"
  shows "\<exists>y. prince_core x k rc = Some y \<and> take_bit 64 y = y
      \<and> prince_core y (k XOR a) rc = Some x"
proof -
  define u0 where "u0 = (x XOR k) XOR c0"
  define u1 where "u1 = (m (s u0) XOR c1) XOR k"
  define u2 where "u2 = (m (s u1) XOR c2) XOR k"
  define u3 where "u3 = (m (s u2) XOR c3) XOR k"
  define u4 where "u4 = (m (s u3) XOR c4) XOR k"
  define u5 where "u5 = (m (s u4) XOR c5) XOR k"
  define w where "w = s_inv (m_prime (s u5))"
  define v6 where "v6 = s_inv (m_inv ((w XOR k) XOR (a XOR c5)))"
  define v7 where "v7 = s_inv (m_inv ((v6 XOR k) XOR (a XOR c4)))"
  define v8 where "v8 = s_inv (m_inv ((v7 XOR k) XOR (a XOR c3)))"
  define v9 where "v9 = s_inv (m_inv ((v8 XOR k) XOR (a XOR c2)))"
  define v10 where "v10 = s_inv (m_inv ((v9 XOR k) XOR (a XOR c1)))"
  define y where "y = (v10 XOR (a XOR c0)) XOR k"
  have first: "prince_core x k rc = Some y"
    unfolding rc prince_core_unroll
    by (simp only: y_def v10_def v9_def v8_def v7_def v6_def w_def
        u5_def u4_def u3_def u2_def u1_def u0_def)
  have wu0: "take_bit 64 u0 = u0" by (simp add: u0_def take_bit_xor x k c)
  have wu1: "take_bit 64 u1 = u1" by (simp add: u1_def take_bit_xor take_bit_m k c)
  have wu2: "take_bit 64 u2 = u2" by (simp add: u2_def take_bit_xor take_bit_m k c)
  have wu3: "take_bit 64 u3 = u3" by (simp add: u3_def take_bit_xor take_bit_m k c)
  have wu4: "take_bit 64 u4 = u4" by (simp add: u4_def take_bit_xor take_bit_m k c)
  have wu5: "take_bit 64 u5 = u5" by (simp add: u5_def take_bit_xor take_bit_m k c)
  have ww: "take_bit 64 w = w" by (simp add: w_def take_bit_s_inv)
  have wv6: "take_bit 64 v6 = v6" by (simp add: v6_def take_bit_s_inv)
  have wv7: "take_bit 64 v7 = v7" by (simp add: v7_def take_bit_s_inv)
  have wv8: "take_bit 64 v8 = v8" by (simp add: v8_def take_bit_s_inv)
  have wv9: "take_bit 64 v9 = v9" by (simp add: v9_def take_bit_s_inv)
  have wv10: "take_bit 64 v10 = v10" by (simp add: v10_def take_bit_s_inv)
  have wy: "take_bit 64 y = y" by (simp add: y_def take_bit_xor wv10 a k c)
  have t0: "(y XOR (k XOR a)) XOR c0 = v10"
    unfolding y_def by (rule bit_eqI) (auto simp add: bit_xor_iff)
  have t1: "(m (s v10) XOR c1) XOR (k XOR a) = v9"
    unfolding v10_def by (rule undo_backward_round [OF wv9 k a c(2)])
  have t2: "(m (s v9) XOR c2) XOR (k XOR a) = v8"
    unfolding v9_def by (rule undo_backward_round [OF wv8 k a c(3)])
  have t3: "(m (s v8) XOR c3) XOR (k XOR a) = v7"
    unfolding v8_def by (rule undo_backward_round [OF wv7 k a c(4)])
  have t4: "(m (s v7) XOR c4) XOR (k XOR a) = v6"
    unfolding v7_def by (rule undo_backward_round [OF wv6 k a c(5)])
  have t5: "(m (s v6) XOR c5) XOR (k XOR a) = w"
    unfolding v6_def by (rule undo_backward_round [OF ww k a c(6)])
  have tm: "s_inv (m_prime (s w)) = u5"
    using middle_middle [of u5] wu5 by (simp add: middle_def w_def)
  have b6: "s_inv (m_inv ((u5 XOR (k XOR a)) XOR (a XOR c5))) = u4"
    unfolding u5_def by (rule undo_forward_round [OF wu4])
  have b7: "s_inv (m_inv ((u4 XOR (k XOR a)) XOR (a XOR c4))) = u3"
    unfolding u4_def by (rule undo_forward_round [OF wu3])
  have b8: "s_inv (m_inv ((u3 XOR (k XOR a)) XOR (a XOR c3))) = u2"
    unfolding u3_def by (rule undo_forward_round [OF wu2])
  have b9: "s_inv (m_inv ((u2 XOR (k XOR a)) XOR (a XOR c2))) = u1"
    unfolding u2_def by (rule undo_forward_round [OF wu1])
  have b10: "s_inv (m_inv ((u1 XOR (k XOR a)) XOR (a XOR c1))) = u0"
    unfolding u1_def by (rule undo_forward_round [OF wu0])
  have fin: "(u0 XOR (a XOR c0)) XOR (k XOR a) = x"
    unfolding u0_def by (rule bit_eqI) (auto simp add: bit_xor_iff)
  have second: "prince_core y (k XOR a) rc = Some x"
    unfolding rc prince_core_unroll
    by (simp only: t0 t1 t2 t3 t4 t5 tm b6 b7 b8 b9 b10 fin)
  from first wy second show ?thesis by blast
qed

lemma RC_symmetric:
  "RC = [0, 0x13198a2e03707344, 0xa4093822299f31d0, 0x082efa98ec4e6c89,
         0x452821e638d01377, 0xbe5466cf34e90c6c,
         0xc0ac29b7c97c50dd XOR 0xbe5466cf34e90c6c, 0xc0ac29b7c97c50dd XOR 0x452821e638d01377,
         0xc0ac29b7c97c50dd XOR 0x082efa98ec4e6c89, 0xc0ac29b7c97c50dd XOR 0xa4093822299f31d0,
         0xc0ac29b7c97c50dd XOR 0x13198a2e03707344, 0xc0ac29b7c97c50dd XOR 0]"
  by (simp add: RC_def)

lemma RC_11: "RC ! 11 = 0xc0ac29b7c97c50dd"
  by (simp add: RC_def)

lemma prince_core_RC_reflection:
  assumes "take_bit 64 x = x" "take_bit 64 k = k"
  shows "\<exists>y. prince_core x k RC = Some y \<and> take_bit 64 y = y
      \<and> prince_core y (k XOR RC ! 11) RC = Some x"
  unfolding RC_11
  by (rule prince_core_reflection [OF assms _ _ _ _ _ _ _ RC_symmetric])
    (simp_all add: take_bit_int_eq_self)


text \<open>
  Claim C5 (amended). For all 64-bit \<open>val\<close>, \<open>k0\<close> and \<open>k1\<close> and the standard table
  \<open>RC\<close>, encrypting the ciphertext again with \<open>complement(k0)\<close> in place of \<open>k0\<close> and
  \<open>k1 XOR RC[11]\<close> in place of \<open>k1\<close> undoes the core permutation and leaves
  \<open>val XOR k0 XOR complement(complement(k0))\<close>.
\<close>

theorem prince_reflection:
  assumes "0 \<le> val" "val < 2 ^ 64" "0 \<le> k0" "k0 < 2 ^ 64" "0 \<le> k1" "k1 < 2 ^ 64"
  shows "\<exists>c. prince val k0 k1 RC = Some c
      \<and> prince c (complement k0) (k1 XOR RC ! 11) RC
          = Some ((val XOR k0) XOR complement (complement k0))"
proof -
  from assms have "take_bit 64 (val XOR k0) = val XOR k0" "take_bit 64 k1 = k1"
    by (simp_all add: take_bit_xor take_bit_int_eq_self)
  from prince_core_RC_reflection [OF this] obtain y
    where y: "prince_core (val XOR k0) k1 RC = Some y"
      and rev: "prince_core y (k1 XOR RC ! 11) RC = Some (val XOR k0)"
    by blast
  have 1: "prince val k0 k1 RC = Some (y XOR complement k0)"
    by (simp add: prince_alt y)
  have "(y XOR complement k0) XOR complement k0 = y"
    by (rule bit_eqI) (auto simp add: bit_xor_iff)
  then have "prince (y XOR complement k0) (complement k0) (k1 XOR RC ! 11) RC
      = Some ((val XOR k0) XOR complement (complement k0))"
    by (simp add: prince_alt rev)
  with 1 show ?thesis by blast
qed

text \<open>
  The reflection property at a plaintext and key with no special structure.
\<close>

theorem prince_reflection_witness:
  "\<exists>c. prince 0x0123456789abcdef 0xfedcba9876543210 0x0f1e2d3c4b5a6978 RC = Some c
     \<and> prince c (complement 0xfedcba9876543210) (0x0f1e2d3c4b5a6978 XOR RC ! 11) RC
         = Some ((0x0123456789abcdef XOR 0xfedcba9876543210)
                   XOR complement (complement 0xfedcba9876543210))"
  by (rule prince_reflection) simp_all

lemma prince_0_0_0: "prince 0 0 0 RC = Some 0x818665aa0d02dfda"
  unfolding prince_def RC_def prince_core_unroll by code_simp

lemma prince_twice: "prince 0x818665aa0d02dfda 0 0 RC = Some 0xd935e1652c6921ee"
  unfolding prince_def RC_def prince_core_unroll by code_simp

text \<open>
  With the same \<open>k1\<close> in both calls the claim C5 fails: for the all-zero plaintext and
  key, the complement of \<open>k0\<close> is 0 and the second encryption does not return 0.
\<close>

theorem prince_twice_counterexample:
  "complement 0 = 0
   \<and> prince 0 0 0 RC = Some 0x818665aa0d02dfda
   \<and> prince 0x818665aa0d02dfda (complement 0) 0 RC = Some 0xd935e1652c6921ee
   \<and> prince 0x818665aa0d02dfda (complement 0) 0 RC \<noteq> Some 0"
proof -
  have "complement 0 = 0" by (simp add: complement_def)
  with prince_0_0_0 prince_twice show ?thesis by simp
qed

text \<open>
  The two whitening keys of the second call do not cancel in general: for \<open>k0 = 1\<close> the
  complement of the complement is \<open>2^62 + 1\<close>, so the result of \<open>prince_reflection\<close>
  differs from the input in bit 62.
\<close>

lemma complement_twice_1: "complement (complement 1) = 0x4000000000000001"
  by (simp add: complement_def)

text \<open>
  The involution at the state \<open>0x0123456789abcdef\<close>.
\<close>

theorem middle_involution_witness:
  "middle (middle 0x0123456789abcdef) = 0x0123456789abcdef
   \<and> m_prime (m_prime 0x0123456789abcdef) = 0x0123456789abcdef"
  by (rule middle_involution) simp_all

section \<open>Properties of the pointer-authentication operations and of the key derivation\<close>

lemma BitMask_Some:
  assumes "0 \<le> f" "f \<le> t + 1"
  shows "BitMask f t = Some (push_bit (nat f) (mask (nat (t - f + 1))))"
  using assms by (simp add: BitMask_def shl_def mask_eq_exp_minus_1)

lemma BitMask_None_iff: "BitMask f t = None \<longleftrightarrow> f < 0 \<or> t + 1 < f"
  by (auto simp add: BitMask_def shl_def)

lemma bit_BitMask:
  assumes "BitMask f t = Some mk"
  shows "bit mk n \<longleftrightarrow> f \<le> int n \<and> int n \<le> t"
proof -
  from assms have r: "0 \<le> f" "f \<le> t + 1"
    by (auto simp add: BitMask_def shl_def split: if_splits bind_splits)
  with assms have "mk = push_bit (nat f) (mask (nat (t - f + 1)))"
    by (simp add: BitMask_Some)
  with r show ?thesis
    by (auto simp add: bit_push_bit_iff bit_mask_iff)
qed

lemma BitMask_56_63: "BitMask 56 63 = Some (push_bit 56 (mask 8))"
  by (simp add: BitMask_Some)

lemma PACMask_None_iff: "PACMask b tbi = None \<longleftrightarrow> b < 0 \<or> 55 < b"
proof (cases "BitMask b 54")
  case None
  then show ?thesis
    using BitMask_None_iff [of b 54] by (simp add: PACMask_def)
next
  case (Some a)
  then have "\<not> (b < 0 \<or> 55 < b)"
    using BitMask_None_iff [of b 54] by auto
  with Some show ?thesis by (simp add: PACMask_def BitMask_56_63)
qed

lemma bit_PACMask:
  assumes "PACMask b tbi = Some mk"
  shows "bit mk n \<longleftrightarrow> (b \<le> int n \<and> n \<le> 54) \<or> (\<not> tbi \<and> 56 \<le> n \<and> n \<le> 63)"
  using assms
  by (auto simp add: PACMask_def bit_or_iff bit_BitMask split: bind_splits if_splits)

lemma modified_prince_total: "\<exists>y. modified_prince v k0 k1 md = Some y"
  by (simp add: modified_prince_def prince_def prince_core_def RC_Apple_def Let_def)


lemma PACMask_Some_ex:
  assumes "0 \<le> b" "b \<le> 55"
  shows "\<exists>mk. PACMask b tbi = Some mk"
  using assms PACMask_None_iff [of b tbi] by (cases "PACMask b tbi") auto

lemma Strip_Some:
  assumes "PACMask b tbi = Some mk"
  shows "Strip ptr b tbi = Some (if bit ptr 55 then (ptr AND NOT mk) OR mk else ptr AND NOT mk)"
proof -
  have "(ptr AND push_bit 55 1 \<noteq> 0) = bit ptr 55"
    by (simp only: push_bit_of_1 and_exp_eq_0_iff_not_bit not_not)
  with assms show ?thesis by (simp add: Strip_def)
qed


lemma bit_Strip:
  assumes "Strip ptr b tbi = Some r"
  shows "bit r n \<longleftrightarrow>
    (if (b \<le> int n \<and> n \<le> 54) \<or> (\<not> tbi \<and> 56 \<le> n \<and> n \<le> 63) then bit ptr 55 else bit ptr n)"
proof -
  from assms obtain mk where mk: "PACMask b tbi = Some mk"
    by (cases "PACMask b tbi") (simp_all add: Strip_def)
  from assms have "r = (if bit ptr 55 then (ptr AND NOT mk) OR mk else ptr AND NOT mk)"
    by (simp add: Strip_Some [OF mk])
  then show ?thesis
    by (auto simp add: bit_or_iff bit_and_iff bit_not_iff bit_PACMask [OF mk])
qed

lemma Strip_Some_ex:
  assumes "0 \<le> b" "b \<le> 55"
  shows "\<exists>r. Strip ptr b tbi = Some r"
proof -
  from PACMask_Some_ex [OF assms] obtain mk where "PACMask b tbi = Some mk" ..
  then show ?thesis by (simp add: Strip_Some)
qed

lemma Strip_cong_bits:
  assumes p: "Strip p b tbi = Some r"
    and same: "\<And>n. \<not> ((b \<le> int n \<and> n \<le> 54) \<or> (\<not> tbi \<and> 56 \<le> n \<and> n \<le> 63)) \<Longrightarrow> bit q n = bit p n"
  shows "Strip q b tbi = Some r"
proof -
  from p obtain mk where mk: "PACMask b tbi = Some mk"
    by (cases "PACMask b tbi") (simp_all add: Strip_def)
  then obtain r' where q: "Strip q b tbi = Some r'" by (simp add: Strip_Some)
  have 55: "bit q 55 = bit p 55" using same [of 55] by simp
  have "r' = r"
  proof (rule bit_eqI)
    fix n
    show "bit r' n = bit r n"
      using same [of n] 55 by (simp add: bit_Strip [OF q] bit_Strip [OF p])
  qed
  with q show ?thesis by simp
qed

text \<open>
  Claim C8 (amended). For every pointer, every \<open>bottom_pac_bit\<close> in [0,55] and every
  \<open>tbi\<close>, \<open>Strip\<close> returns and is idempotent: stripping the stripped pointer gives
  the stripped pointer again.
\<close>

theorem Strip_idempotent:
  assumes "0 \<le> b" "b \<le> 55"
  shows "\<exists>r. Strip ptr b tbi = Some r \<and> Strip r b tbi = Some r"
proof -
  from Strip_Some_ex [OF assms] obtain r where r: "Strip ptr b tbi = Some r" ..
  from Strip_Some_ex [OF assms] obtain r' where r': "Strip r b tbi = Some r'" ..
  have "r' = r"
    by (rule bit_eqI) (simp add: bit_Strip [OF r'] bit_Strip [OF r])
  with r r' show ?thesis by simp
qed


lemma AddPAC_Some:
  assumes mk: "PACMask b tbi = Some mk"
    and orig: "Strip ptr b tbi = Some orig"
    and ext: "BitMask b (if tbi then 55 else 63) = Some em"
    and pac: "modified_prince orig k_hi k_lo md = Some pac"
    and fb: "fb = (if tbi then 54 else 62)"
  shows "AddPAC ptr k_hi k_lo md b tbi ehp ehp2 =
    (let poisoned = (ptr AND em \<noteq> 0 \<and> ptr AND em \<noteq> em);
         code = (if poisoned \<and> ehp then 0
                 else if poisoned \<and> \<not> ehp2 then pac XOR push_bit fb 1
                 else pac)
     in Some (if ehp2 then ptr XOR (code AND mk) else (ptr AND NOT mk) OR (code AND mk)))"
proof -
  have "nat ((if tbi then 55 else 63) - 1) = fb"
    by (simp add: fb)
  with mk orig ext pac show ?thesis
    by (simp add: AddPAC_def Let_def del: push_bit_of_1)
qed

lemma Auth_Some:
  assumes mk: "PACMask b tbi = Some mk"
    and orig: "Strip ptr b tbi = Some orig"
    and pac: "modified_prince orig k_hi k_lo md = Some pac"
    and sh: "sh = (if tbi then 53 else 61)"
  shows "Auth ptr k_hi k_lo b_key md b tbi ehp2 =
    Some (if ehp2 then ptr XOR (pac AND mk)
          else if ptr AND mk \<noteq> pac AND mk then
            (orig AND NOT (push_bit sh 3)) OR push_bit sh (if b_key then 2 else 1)
          else orig)"
  using mk orig pac unfolding sh by (simp add: Auth_def Let_def)

lemma bit_3_iff: "bit (3::int) k \<longleftrightarrow> k < 2"
proof -
  have "(3::int) = mask 2" by (simp add: mask_eq_exp_minus_1)
  then show ?thesis by (simp only: bit_mask_iff) simp
qed

lemma bit_2_iff: "bit (2::int) k \<longleftrightarrow> k = 1"
  using bit_exp_iff [where ?'a = int, of 1 k] by simp

lemma bit_error_field:
  "bit ((x AND NOT (push_bit sh 3)) OR push_bit sh (if bk then 2 else 1 :: int)) n \<longleftrightarrow>
     (if n = sh then \<not> bk else if n = Suc sh then bk else bit x n)"
  by (auto simp add: bit_or_iff bit_and_iff bit_not_iff bit_push_bit_iff bit_3_iff bit_2_iff
      bit_1_iff)

lemma ext_mask_Some_ex:
  assumes "0 \<le> b" "b \<le> 55"
  shows "\<exists>em. BitMask b (if tbi then 55 else 63) = Some em"
  using assms BitMask_None_iff [of b "if tbi then 55 else 63"]
  by (cases "BitMask b (if tbi then 55 else 63)") (auto split: if_splits)


text \<open>
  Claim C2 (amended). Whenever \<open>Auth\<close> is called with \<open>have_enhanced_pac2 = False\<close> and
  the PAC-masked bits of \<open>ptr\<close> differ from the PAC-masked bits of the recomputed code,
  the result is \<open>Strip(ptr)\<close> with the 2-bit error code written into bits [54,53] when
  \<open>tbi\<close> is true and into bits [62,61] when it is false: \<open>0b01\<close> (bit 53 or 61 set, bit
  54 or 62 clear) for an A key, \<open>0b10\<close> for a B key; every other bit is the bit of the
  stripped pointer.
\<close>

theorem Auth_failure_error_code:
  assumes mk: "PACMask b tbi = Some mk"
    and orig: "Strip ptr b tbi = Some orig"
    and pac: "modified_prince orig k_hi k_lo md = Some pac"
    and differ: "ptr AND mk \<noteq> pac AND mk"
  shows "\<exists>r. Auth ptr k_hi k_lo b_key md b tbi False = Some r \<and>
    (\<forall>n. bit r n \<longleftrightarrow>
       (if n = (if tbi then 53 else 61) then \<not> b_key
        else if n = (if tbi then 54 else 62) then b_key
        else bit orig n))"
proof -
  define sh :: nat where "sh = (if tbi then 53 else 61)"
  define r where "r = (orig AND NOT (push_bit sh 3)) OR push_bit sh (if b_key then 2 else 1)"
  have "Auth ptr k_hi k_lo b_key md b tbi False = Some r"
    using differ by (simp add: Auth_Some [OF mk orig pac sh_def] r_def)
  moreover have "Suc sh = (if tbi then 54 else 62)"
    by (simp add: sh_def)
  then have "\<forall>n. bit r n \<longleftrightarrow>
       (if n = (if tbi then 53 else 61) then \<not> b_key
        else if n = (if tbi then 54 else 62) then b_key
        else bit orig n)"
    unfolding r_def bit_error_field by (simp add: sh_def)
  ultimately show ?thesis by blast
qed


lemma bit_AddPAC_outside:
  assumes mk: "PACMask b tbi = Some mk"
    and sp: "AddPAC ptr k_hi k_lo md b tbi ehp ehp2 = Some sp"
    and out: "\<not> bit mk n"
  shows "bit sp n = bit ptr n"
proof -
  from sp obtain orig where orig: "Strip ptr b tbi = Some orig"
    by (cases "Strip ptr b tbi") (simp_all add: AddPAC_def Let_def)
  from sp orig obtain em where em: "BitMask b (if tbi then 55 else 63) = Some em"
    by (cases "BitMask b (if tbi then 55 else 63)") (simp_all add: AddPAC_def Let_def)
  from modified_prince_total obtain pac where pac: "modified_prince orig k_hi k_lo md = Some pac" ..
  show ?thesis
    using sp out unfolding AddPAC_Some [OF mk orig em pac refl] Let_def
    by (auto simp add: bit_xor_iff bit_or_iff bit_and_iff bit_not_iff split: if_splits)
qed

lemma AddPAC_Some_ex:
  assumes "0 \<le> b" "b \<le> 55"
  shows "\<exists>sp. AddPAC ptr k_hi k_lo md b tbi ehp ehp2 = Some sp"
proof -
  from PACMask_Some_ex [OF assms] obtain mk where mk: "PACMask b tbi = Some mk" ..
  from Strip_Some_ex [OF assms] obtain orig where orig: "Strip ptr b tbi = Some orig" ..
  from ext_mask_Some_ex [OF assms] obtain em where em: "BitMask b (if tbi then 55 else 63) = Some em" ..
  from modified_prince_total obtain pac where pac: "modified_prince orig k_hi k_lo md = Some pac" ..
  show ?thesis
    unfolding AddPAC_Some [OF mk orig em pac refl] Let_def by simp
qed

text \<open>
  Claim C10. For every pointer, every \<open>bottom_pac_bit\<close> in [0,55], every \<open>tbi\<close>, every
  key, modifier and combination of the enhanced-PAC flags, \<open>AddPAC\<close> and \<open>Strip\<close>
  return pointers that agree with \<open>ptr\<close> on every bit outside \<open>_PACMask\<close>; bit 55 and
  the bits below \<open>bottom_pac_bit\<close> are outside the mask.
\<close>

theorem AddPAC_Strip_frame:
  assumes "0 \<le> b" "b \<le> 55"
  shows "\<exists>mk sp st. PACMask b tbi = Some mk
      \<and> AddPAC ptr k_hi k_lo md b tbi ehp ehp2 = Some sp
      \<and> Strip ptr b tbi = Some st
      \<and> (\<forall>n. \<not> bit mk n \<longrightarrow> bit sp n = bit ptr n \<and> bit st n = bit ptr n)
      \<and> \<not> bit mk 55
      \<and> (\<forall>n. int n < b \<longrightarrow> \<not> bit mk n)"
proof -
  from PACMask_Some_ex [OF assms] obtain mk where mk: "PACMask b tbi = Some mk" ..
  from Strip_Some_ex [OF assms] obtain st where st: "Strip ptr b tbi = Some st" ..
  from AddPAC_Some_ex [OF assms] obtain sp
    where sp: "AddPAC ptr k_hi k_lo md b tbi ehp ehp2 = Some sp" ..
  have "\<forall>n. \<not> bit mk n \<longrightarrow> bit sp n = bit ptr n \<and> bit st n = bit ptr n"
  proof (intro allI impI conjI)
    fix n assume out: "\<not> bit mk n"
    show "bit sp n = bit ptr n" by (rule bit_AddPAC_outside [OF mk sp out])
    from out show "bit st n = bit ptr n"
      by (auto simp add: bit_Strip [OF st] bit_PACMask [OF mk])
  qed
  moreover have "\<not> bit mk 55" by (simp add: bit_PACMask [OF mk])
  moreover have "\<forall>n. int n < b \<longrightarrow> \<not> bit mk n"
    using assms by (auto simp add: bit_PACMask [OF mk])
  ultimately show ?thesis using mk st sp by blast
qed

lemma Strip_AddPAC:
  assumes orig: "Strip ptr b tbi = Some orig"
    and sp: "AddPAC ptr k_hi k_lo md b tbi ehp ehp2 = Some sp"
  shows "Strip sp b tbi = Some orig"
proof -
  from orig obtain mk where mk: "PACMask b tbi = Some mk"
    by (cases "PACMask b tbi") (simp_all add: Strip_def)
  show ?thesis
  proof (rule Strip_cong_bits [OF orig])
    fix n
    assume "\<not> ((b \<le> int n \<and> n \<le> 54) \<or> (\<not> tbi \<and> 56 \<le> n \<and> n \<le> 63))"
    then have "\<not> bit mk n" by (simp add: bit_PACMask [OF mk])
    then show "bit sp n = bit ptr n" by (rule bit_AddPAC_outside [OF mk sp])
  qed
qed

text \<open>
  Claim C9. With \<open>have_enhanced_pac2 = True\<close>, for every pointer, key, \<open>b_key\<close> flag,
  modifier, \<open>bottom_pac_bit\<close> in [0,55] and \<open>tbi\<close>, applying \<open>Auth\<close> twice with the same
  arguments returns the original pointer.
\<close>

theorem Auth_enhanced_pac2_involution:
  assumes "0 \<le> b" "b \<le> 55"
  shows "\<exists>r. Auth ptr k_hi k_lo b_key md b tbi True = Some r
      \<and> Auth r k_hi k_lo b_key md b tbi True = Some ptr"
proof -
  from PACMask_Some_ex [OF assms] obtain mk where mk: "PACMask b tbi = Some mk" ..
  from Strip_Some_ex [OF assms] obtain orig where orig: "Strip ptr b tbi = Some orig" ..
  from modified_prince_total obtain pac where pac: "modified_prince orig k_hi k_lo md = Some pac" ..
  define r where "r = ptr XOR (pac AND mk)"
  have 1: "Auth ptr k_hi k_lo b_key md b tbi True = Some r"
    by (simp add: Auth_Some [OF mk orig pac refl] r_def)
  have "Strip r b tbi = Some orig"
  proof (rule Strip_cong_bits [OF orig])
    fix n
    assume "\<not> ((b \<le> int n \<and> n \<le> 54) \<or> (\<not> tbi \<and> 56 \<le> n \<and> n \<le> 63))"
    then have "\<not> bit mk n" by (simp add: bit_PACMask [OF mk])
    then show "bit r n = bit ptr n" by (simp add: r_def bit_xor_iff bit_and_iff)
  qed
  then have "Auth r k_hi k_lo b_key md b tbi True = Some (r XOR (pac AND mk))"
    by (simp add: Auth_Some [OF mk _ pac refl])
  moreover have "r XOR (pac AND mk) = ptr"
    by (simp add: r_def xor.assoc)
  ultimately show ?thesis using 1 by simp
qed


lemma canonical_not_poisoned:
  assumes em: "BitMask b t = Some em"
    and canon: "(\<forall>n. b \<le> int n \<and> int n \<le> t \<longrightarrow> \<not> bit p n) \<or>
                (\<forall>n. b \<le> int n \<and> int n \<le> t \<longrightarrow> bit p n)"
  shows "p AND em = 0 \<or> p AND em = em"
proof -
  from canon show ?thesis
  proof
    assume z: "\<forall>n. b \<le> int n \<and> int n \<le> t \<longrightarrow> \<not> bit p n"
    have "p AND em = 0"
      by (rule bit_eqI) (use z in \<open>auto simp add: bit_and_iff bit_BitMask [OF em]\<close>)
    then show ?thesis ..
  next
    assume o: "\<forall>n. b \<le> int n \<and> int n \<le> t \<longrightarrow> bit p n"
    have "p AND em = em"
      by (rule bit_eqI) (use o in \<open>auto simp add: bit_and_iff bit_BitMask [OF em]\<close>)
    then show ?thesis ..
  qed
qed

lemma canonical_Strip:
  assumes st: "Strip p b tbi = Some st"
    and canon: "(\<forall>n. b \<le> int n \<and> int n \<le> (if tbi then 55 else 63) \<longrightarrow> \<not> bit p n) \<or>
                (\<forall>n. b \<le> int n \<and> int n \<le> (if tbi then 55 else 63) \<longrightarrow> bit p n)"
    and b: "b \<le> 55"
  shows "st = p"
proof (rule bit_eqI)
  fix n
  from b have 55: "b \<le> int 55 \<and> int 55 \<le> (if tbi then 55 else 63)" by simp
  from canon show "bit st n = bit p n"
  proof
    assume z: "\<forall>n. b \<le> int n \<and> int n \<le> (if tbi then 55 else 63) \<longrightarrow> \<not> bit p n"
    with 55 have "\<not> bit p 55" by blast
    with z [rule_format, of n] b show ?thesis
      by (auto simp add: bit_Strip [OF st] split: if_splits)
  next
    assume o: "\<forall>n. b \<le> int n \<and> int n \<le> (if tbi then 55 else 63) \<longrightarrow> bit p n"
    with 55 have "bit p 55" by blast
    with o [rule_format, of n] b show ?thesis
      by (auto simp add: bit_Strip [OF st] split: if_splits)
  qed
qed

text \<open>
  Claim C1. For a canonical pointer \<open>p\<close> (the bits from \<open>bottom_pac_bit\<close> through the top
  bit, 55 with \<open>tbi\<close> and 63 without, are all 0 or all 1), every key, modifier,
  \<open>bottom_pac_bit\<close> in [0,55], \<open>tbi\<close> and combination of the enhanced-PAC flags,
  authenticating the signed pointer with the same key (as an A key) returns
  \<open>Strip(p)\<close>.
\<close>

theorem AddPAC_Auth_round_trip:
  assumes b: "0 \<le> b" "b \<le> 55"
    and canon: "(\<forall>n. b \<le> int n \<and> int n \<le> (if tbi then 55 else 63) \<longrightarrow> \<not> bit p n) \<or>
                (\<forall>n. b \<le> int n \<and> int n \<le> (if tbi then 55 else 63) \<longrightarrow> bit p n)"
  shows "\<exists>sp st. AddPAC p k_hi k_lo md b tbi ehp ehp2 = Some sp
      \<and> Strip p b tbi = Some st
      \<and> Auth sp k_hi k_lo False md b tbi ehp2 = Some st"
proof -
  from PACMask_Some_ex [OF b] obtain mk where mk: "PACMask b tbi = Some mk" ..
  from Strip_Some_ex [OF b] obtain st where st: "Strip p b tbi = Some st" ..
  from ext_mask_Some_ex [OF b] obtain em where em: "BitMask b (if tbi then 55 else 63) = Some em" ..
  from modified_prince_total obtain pac where pac: "modified_prince st k_hi k_lo md = Some pac" ..
  have stp: "st = p" by (rule canonical_Strip [OF st canon b(2)])
  have np: "(p AND em \<noteq> 0 \<and> p AND em \<noteq> em) = False"
    using canonical_not_poisoned [OF em canon] by blast
  define sp where "sp = (if ehp2 then p XOR (pac AND mk) else (p AND NOT mk) OR (pac AND mk))"
  have sp: "AddPAC p k_hi k_lo md b tbi ehp ehp2 = Some sp"
    unfolding AddPAC_Some [OF mk st em pac refl] Let_def np by (simp add: sp_def)
  have st': "Strip sp b tbi = Some st" by (rule Strip_AddPAC [OF st sp])
  have "Auth sp k_hi k_lo False md b tbi ehp2 = Some st"
  proof (cases ehp2)
    case True
    then have "sp XOR (pac AND mk) = p" by (simp add: sp_def xor.assoc)
    with True show ?thesis by (simp add: Auth_Some [OF mk st' pac refl] stp)
  next
    case False
    then have "sp AND mk = pac AND mk"
      by (simp add: sp_def bit_eq_iff bit_and_iff bit_or_iff bit_not_iff) blast
    with False show ?thesis by (simp add: Auth_Some [OF mk st' pac refl])
  qed
  with sp st show ?thesis by blast
qed


lemma poisoned_extension:
  assumes em: "BitMask b t = Some em"
    and one: "b \<le> int n1" "int n1 \<le> t" "bit p n1"
    and zero: "b \<le> int n0" "int n0 \<le> t" "\<not> bit p n0"
  shows "p AND em \<noteq> 0 \<and> p AND em \<noteq> em"
proof -
  have "bit (p AND em) n1" using one by (simp add: bit_and_iff bit_BitMask [OF em])
  then have 1: "p AND em \<noteq> 0" by auto
  have "bit em n0" "\<not> bit (p AND em) n0"
    using zero by (simp_all add: bit_and_iff bit_BitMask [OF em])
  then have "p AND em \<noteq> em" by auto
  with 1 show ?thesis ..
qed

text \<open>
  Claim C7 (amended). Let the extension bits of \<open>p\<close> (from \<open>bottom_pac_bit\<close> through the
  top bit) contain both a 1 (at \<open>n1\<close>) and a 0 (at \<open>n0\<close>), and let
  \<open>have_enhanced_pac2\<close> be false. If \<open>have_enhanced_pac\<close> is false, or the code
  recomputed from the stripped pointer has a nonzero bit inside the PAC mask, then
  \<open>Auth\<close> of \<open>AddPAC\<close> of \<open>p\<close> has a nonzero error-code field (bits [54,53] with
  \<open>tbi\<close>, [62,61] without).
\<close>

theorem poisoned_pointer_detected:
  assumes b: "0 \<le> b" "b \<le> 55"
    and one: "b \<le> int n1" "int n1 \<le> (if tbi then 55 else 63)" "bit p n1"
    and zero: "b \<le> int n0" "int n0 \<le> (if tbi then 55 else 63)" "\<not> bit p n0"
    and orig: "Strip p b tbi = Some orig"
    and pac: "modified_prince orig k_hi k_lo md = Some pac"
    and mk: "PACMask b tbi = Some mk"
    and code: "ehp \<longrightarrow> pac AND mk \<noteq> 0"
  shows "\<exists>sp r. AddPAC p k_hi k_lo md b tbi ehp False = Some sp
      \<and> Auth sp k_hi k_lo b_key md b tbi False = Some r
      \<and> (bit r (if tbi then 53 else 61) \<or> bit r (if tbi then 54 else 62))"
proof -
  from ext_mask_Some_ex [OF b] obtain em where em: "BitMask b (if tbi then 55 else 63) = Some em" ..
  define fb :: nat where "fb = (if tbi then 54 else 62)"
  define sh :: nat where "sh = (if tbi then 53 else 61)"
  define c where "c = (if ehp then 0 else pac XOR push_bit fb 1)"
  define sp where "sp = (p AND NOT mk) OR (c AND mk)"
  have po: "(p AND em \<noteq> 0 \<and> p AND em \<noteq> em) = True"
    using poisoned_extension [OF em one zero] by simp
  have sp: "AddPAC p k_hi k_lo md b tbi ehp False = Some sp"
    unfolding AddPAC_Some [OF mk orig em pac fb_def] Let_def po
    by (simp add: sp_def c_def del: push_bit_of_1)
  have st': "Strip sp b tbi = Some orig" by (rule Strip_AddPAC [OF orig sp])
  have fbm: "bit mk fb"
  proof (cases tbi)
    case True
    with one zero have "n1 \<noteq> n0" "int n1 \<le> 55" "int n0 \<le> 55" by auto
    with one(1) zero(1) have "b \<le> 54" by linarith
    with True show ?thesis by (simp add: bit_PACMask [OF mk] fb_def)
  next
    case False
    then show ?thesis by (simp add: bit_PACMask [OF mk] fb_def)
  qed
  have spm: "sp AND mk = c AND mk"
    by (simp add: sp_def bit_eq_iff bit_and_iff bit_or_iff bit_not_iff) blast
  have "c AND mk \<noteq> pac AND mk"
  proof (cases ehp)
    case True
    with code show ?thesis by (simp add: c_def)
  next
    case False
    have "bit (c AND mk) fb \<noteq> bit (pac AND mk) fb"
      using False fbm by (simp add: c_def bit_and_iff bit_xor_iff bit_exp_iff)
    then show ?thesis by auto
  qed
  with spm have differ: "sp AND mk \<noteq> pac AND mk" by simp
  define r where "r = (orig AND NOT (push_bit sh 3)) OR push_bit sh (if b_key then 2 else 1)"
  have r: "Auth sp k_hi k_lo b_key md b tbi False = Some r"
    using differ by (simp add: Auth_Some [OF mk st' pac sh_def] r_def)
  have "bit r sh \<or> bit r (Suc sh)"
    unfolding r_def bit_error_field by simp
  moreover have "Suc sh = (if tbi then 54 else 62)" by (simp add: sh_def)
  ultimately have "bit r (if tbi then 53 else 61) \<or> bit r (if tbi then 54 else 62)"
    by (simp add: sh_def)
  with sp r show ?thesis by blast
qed


lemma modified_prince_0_0_0_0: "modified_prince 0 0 0 0 = Some 11950259574844731120"
  unfolding modified_prince_def prince_def RC_Apple_def prince_core_unroll
  by code_simp

lemma modified_prince_0_0_0_3: "modified_prince 0 0 0 3 = Some 914312557159129887"
  unfolding modified_prince_def prince_def RC_Apple_def prince_core_unroll
  by code_simp

lemma PACMask_39_True: "PACMask 39 True = Some 0x7FFF8000000000"
  by (simp add: PACMask_def BitMask_def shl_def)

lemma PACMask_54_True: "PACMask 54 True = Some 0x40000000000000"
  by (simp add: PACMask_def BitMask_def shl_def)

lemma Strip_0: "PACMask b tbi = Some mk \<Longrightarrow> Strip 0 b tbi = Some 0"
  by (simp add: Strip_def)

text \<open>
  The error code is not written into bits [53,52]: authenticating the null pointer with
  the zero key fails, and the result has bit 53 set and bit 52 clear.
\<close>

theorem Auth_error_bits_counterexample:
  "Strip 0 39 True = Some 0
   \<and> Auth 0 0 0 False 0 39 True False = Some 0x20000000000000
   \<and> Auth 0 0 0 False 0 39 True False \<noteq> Some 0x10000000000000"
  by (simp add: Auth_def Strip_0 [OF PACMask_39_True] PACMask_39_True modified_prince_0_0_0_0)

text \<open>
  The failing authentication of the null pointer under the zero key, as an instance of
  \<open>Auth_failure_error_code\<close>: the recomputed code is nonzero inside the mask.
\<close>

theorem Auth_failure_error_code_witness:
  "PACMask 39 True = Some 0x7FFF8000000000
   \<and> Strip 0 39 True = Some 0
   \<and> modified_prince 0 0 0 0 = Some 11950259574844731120
   \<and> (0::int) AND 0x7FFF8000000000 \<noteq> 11950259574844731120 AND 0x7FFF8000000000
   \<and> (\<exists>r. Auth 0 0 0 False 0 39 True False = Some r \<and>
        (\<forall>n. bit r n \<longleftrightarrow> (if n = 53 then True else if n = 54 then False else bit (0::int) n)))"
proof -
  have d: "(0::int) AND 0x7FFF8000000000 \<noteq> 11950259574844731120 AND 0x7FFF8000000000"
    by simp
  from Auth_failure_error_code [OF PACMask_39_True Strip_0 [OF PACMask_39_True]
        modified_prince_0_0_0_0 d, of False]
  obtain r where r: "Auth 0 0 0 False 0 39 True False = Some r"
    and bits: "\<forall>n. bit r n \<longleftrightarrow>
       (if n = (if True then 53 else 61) then \<not> False
        else if n = (if True then 54 else 62) then False
        else bit (0::int) n)"
    by blast
  from bits have "\<forall>n. bit r n \<longleftrightarrow>
      (if n = 53 then True else if n = 54 then False else bit (0::int) n)"
    by simp
  with r have "\<exists>r. Auth 0 0 0 False 0 39 True False = Some r \<and>
        (\<forall>n. bit r n \<longleftrightarrow> (if n = 53 then True else if n = 54 then False else bit (0::int) n))"
    by blast
  with d PACMask_39_True Strip_0 [OF PACMask_39_True] modified_prince_0_0_0_0
  show ?thesis by blast
qed

text \<open>
  With \<open>have_enhanced_pac\<close> the claim C7 fails where the recomputed code is zero inside
  the mask. The pointer \<open>2^54\<close> with \<open>bottom_pac_bit = 54\<close> and \<open>tbi\<close> is poisoned (bit 54
  set, bit 55 clear); it is signed with the code 0, giving the pointer 0, and bit 54 of
  \<open>modified_prince(0, 0, 0, 3)\<close> is 0, so authentication succeeds and returns 0, whose
  error-code field is zero.
\<close>

theorem poisoned_pointer_counterexample:
  "bit (0x40000000000000::int) 54 \<and> \<not> bit (0x40000000000000::int) 55
   \<and> AddPAC 0x40000000000000 0 0 3 54 True True False = Some 0
   \<and> Auth 0 0 0 False 3 54 True False = Some 0"
proof -
  have "BitMask 54 55 = Some 0xC0000000000000"
    by (simp add: BitMask_def shl_def)
  then have "AddPAC 0x40000000000000 0 0 3 54 True True False = Some 0"
    by (simp add: AddPAC_def Strip_def PACMask_54_True)
  moreover have "Auth 0 0 0 False 3 54 True False = Some 0"
    by (simp add: Auth_def Strip_0 [OF PACMask_54_True] PACMask_54_True modified_prince_0_0_0_3)
  moreover have "(0x40000000000000::int) = 2 ^ 54" by simp
  then have "bit (0x40000000000000::int) 54 \<and> \<not> bit (0x40000000000000::int) 55"
    by (simp only: bit_exp_iff) simp
  ultimately show ?thesis by blast
qed


text \<open>
  With \<open>have_enhanced_pac\<close> and the modifier 0, bit 54 of the recomputed code is set, and
  the poisoned pointer \<open>2^54\<close> is detected.
\<close>

theorem poisoned_pointer_detected_witness:
  "(0::int) \<le> 54 \<and> (54::int) \<le> 55
   \<and> bit (0x40000000000000::int) 54 \<and> \<not> bit (0x40000000000000::int) 55
   \<and> Strip 0x40000000000000 54 True = Some 0
   \<and> modified_prince 0 0 0 0 = Some 11950259574844731120
   \<and> PACMask 54 True = Some 0x40000000000000
   \<and> (11950259574844731120::int) AND 0x40000000000000 \<noteq> 0
   \<and> (\<exists>sp r. AddPAC 0x40000000000000 0 0 0 54 True True False = Some sp
        \<and> Auth sp 0 0 False 0 54 True False = Some r
        \<and> (bit r 53 \<or> bit r 54))"
proof -
  have e: "(0x40000000000000::int) = 2 ^ 54" by simp
  have b54: "bit (0x40000000000000::int) 54" and b55: "\<not> bit (0x40000000000000::int) 55"
    by (simp_all only: e bit_exp_iff) simp_all
  have st: "Strip 0x40000000000000 54 True = Some 0"
    using b55 by (simp add: Strip_Some [OF PACMask_54_True])
  have nz: "(11950259574844731120::int) AND 0x40000000000000 \<noteq> 0"
    by simp
  have "\<exists>sp r. AddPAC 0x40000000000000 0 0 0 54 True True False = Some sp
        \<and> Auth sp 0 0 False 0 54 True False = Some r
        \<and> (bit r (if True then 53 else 61) \<or> bit r (if True then 54 else 62))"
    by (rule poisoned_pointer_detected [where ?n1.0 = 54 and ?n0.0 = 55,
          OF _ _ _ _ b54 _ _ b55 st modified_prince_0_0_0_0 PACMask_54_True])
      (simp_all add: nz)
  then have "\<exists>sp r. AddPAC 0x40000000000000 0 0 0 54 True True False = Some sp
        \<and> Auth sp 0 0 False 0 54 True False = Some r
        \<and> (bit r 53 \<or> bit r 54)"
    by simp
  with b54 b55 st nz modified_prince_0_0_0_0 PACMask_54_True show ?thesis by simp
qed

text \<open>
  With \<open>bottom_pac_bit = 63\<close> the mask computation of C4 does not yield an empty field:
  \<open>_BitMask(63, 54)\<close> shifts by \<open>54 - 63 + 1 = -8\<close>, and Python raises ValueError.
\<close>

theorem PACMask_63_counterexample: "PACMask 63 True = None"
  by (simp add: PACMask_def BitMask_def shl_def)

text \<open>
  Claim C4 (amended). For every \<open>bottom_pac_bit\<close> in [0,55] and every \<open>tbi\<close>, computing
  the PAC mask returns a 64-bit mask whose set bits are exactly [bottom_pac_bit,54], plus
  [56,63] when \<open>tbi\<close> is false; the computation raises exactly when \<open>bottom_pac_bit\<close> is
  negative or above 55. \<open>bottom_pac_bit = 55\<close> with \<open>tbi\<close> gives the empty field and
  \<open>bottom_pac_bit = 0\<close> the maximal one.
\<close>

theorem PACMask_defined_range:
  "(0 \<le> b \<and> b \<le> 55 \<longrightarrow>
      (\<exists>mk. PACMask b tbi = Some mk \<and> 0 \<le> mk \<and> mk < 2 ^ 64 \<and>
         (\<forall>n. bit mk n \<longleftrightarrow> (b \<le> int n \<and> n \<le> 54) \<or> (\<not> tbi \<and> 56 \<le> n \<and> n \<le> 63))))
   \<and> (PACMask b tbi = None \<longleftrightarrow> b < 0 \<or> 55 < b)
   \<and> PACMask 55 True = Some 0
   \<and> PACMask 0 True = Some 0x7FFFFFFFFFFFFF
   \<and> PACMask 0 False = Some 0xFF7FFFFFFFFFFFFF"
proof (intro conjI impI)
  assume b: "0 \<le> b \<and> b \<le> 55"
  then obtain mk where mk: "PACMask b tbi = Some mk"
    using PACMask_Some_ex [of b tbi] by blast
  have "take_bit 64 mk = mk"
    by (rule bit_eqI) (auto simp add: bit_take_bit_iff bit_PACMask [OF mk])
  then have "0 \<le> mk \<and> mk < 2 ^ 64"
    by (simp only: take_bit_int_eq_self_iff)
  with mk show "\<exists>mk. PACMask b tbi = Some mk \<and> 0 \<le> mk \<and> mk < 2 ^ 64 \<and>
         (\<forall>n. bit mk n \<longleftrightarrow> (b \<le> int n \<and> n \<le> 54) \<or> (\<not> tbi \<and> 56 \<le> n \<and> n \<le> 63))"
    using bit_PACMask [OF mk] by blast
next
  show "PACMask b tbi = None \<longleftrightarrow> b < 0 \<or> 55 < b" by (rule PACMask_None_iff)
qed (simp_all add: PACMask_def BitMask_def shl_def)

text \<open>
  The mask for the usual kernel configuration, \<open>bottom_pac_bit = 39\<close> without \<open>tbi\<close>.
\<close>

theorem PACMask_defined_range_witness:
  "(0::int) \<le> 39 \<and> (39::int) \<le> 55 \<and>
   (\<exists>mk. PACMask 39 False = Some mk \<and> 0 \<le> mk \<and> mk < 2 ^ 64 \<and>
      (\<forall>n. bit mk n \<longleftrightarrow> (39 \<le> int n \<and> n \<le> 54) \<or> (\<not> False \<and> 56 \<le> n \<and> n \<le> 63)))"
  using PACMask_defined_range [of 39 False] by simp

text \<open>
  For a \<open>bottom_pac_bit\<close> in [56,63] the idempotence equation of C8 cannot be
  evaluated: \<open>_BitMask(56, 54)\<close> shifts by \<open>54 - 56 + 1 = -1\<close> and \<open>Strip\<close> raises.
\<close>

theorem Strip_56_counterexample: "Strip 0 56 False = None"
  by (simp add: Strip_def PACMask_def BitMask_def shl_def)

text \<open>
  Idempotence at a pointer that carries a code in its upper bits.
\<close>

theorem Strip_idempotent_witness:
  "(0::int) \<le> 39 \<and> (39::int) \<le> 55 \<and>
   (\<exists>r. Strip 0x1234ffffffff0000 39 False = Some r \<and> Strip r 39 False = Some r)"
  using Strip_idempotent [of 39 "0x1234ffffffff0000" False] by simp

text \<open>
  The involution at a kernel pointer under a B key.
\<close>

theorem Auth_enhanced_pac2_involution_witness:
  "(0::int) \<le> 39 \<and> (39::int) \<le> 55 \<and>
   (\<exists>r. Auth 0xfffffff007004000 1 2 True 3 39 False True = Some r
      \<and> Auth r 1 2 True 3 39 False True = Some 0xfffffff007004000)"
  using Auth_enhanced_pac2_involution [of 39 "0xfffffff007004000" 1 2 True 3 False] by simp

text \<open>
  The frame property at a kernel pointer.
\<close>

theorem AddPAC_Strip_frame_witness:
  "(0::int) \<le> 39 \<and> (39::int) \<le> 55 \<and>
   (\<exists>mk sp st. PACMask 39 False = Some mk
      \<and> AddPAC 0xfffffff007004000 1 2 3 39 False False False = Some sp
      \<and> Strip 0xfffffff007004000 39 False = Some st
      \<and> (\<forall>n. \<not> bit mk n \<longrightarrow> bit sp n = bit (0xfffffff007004000::int) n
                \<and> bit st n = bit (0xfffffff007004000::int) n)
      \<and> \<not> bit mk 55
      \<and> (\<forall>n. int n < 39 \<longrightarrow> \<not> bit mk n))"
  using AddPAC_Strip_frame [of 39 False "0xfffffff007004000" 1 2 3 False False] by simp

lemma upper_bits_set:
  assumes "drop_bit k (p::int) = mask w"
  shows "\<forall>n. int k \<le> int n \<and> n < k + w \<longrightarrow> bit p n"
proof (intro allI impI)
  fix n assume n: "int k \<le> int n \<and> n < k + w"
  then have "bit (drop_bit k p) (n - k)"
    unfolding assms by (simp add: bit_mask_iff) linarith
  with n show "bit p n" by (simp add: bit_drop_bit_eq)
qed

text \<open>
  The round trip at a canonical kernel pointer: its bits 39 to 63 are all 1.
\<close>

theorem AddPAC_Auth_round_trip_witness:
  "(0::int) \<le> 39 \<and> (39::int) \<le> 55
   \<and> drop_bit 39 (0xfffffff007004000::int) = mask 25
   \<and> (\<exists>sp st. AddPAC 0xfffffff007004000 1 2 3 39 False False False = Some sp
        \<and> Strip 0xfffffff007004000 39 False = Some st
        \<and> Auth sp 1 2 False 3 39 False False = Some st)"
proof -
  have d: "drop_bit 39 (0xfffffff007004000::int) = mask 25"
    by (simp add: mask_eq_exp_minus_1 drop_bit_eq_div)
  from upper_bits_set [OF d]
  have c: "\<forall>n. 39 \<le> int n \<and> int n \<le> 63 \<longrightarrow> bit (0xfffffff007004000::int) n"
    by auto
  then have "(\<forall>n. 39 \<le> int n \<and> int n \<le> (if False then 55 else 63)
                 \<longrightarrow> \<not> bit (0xfffffff007004000::int) n)
     \<or> (\<forall>n. 39 \<le> int n \<and> int n \<le> (if False then 55 else 63)
                 \<longrightarrow> bit (0xfffffff007004000::int) n)"
    by simp
  from AddPAC_Auth_round_trip [OF _ _ this, of 1 2 3 False False] d
  show ?thesis by simp
qed

text \<open>
  \<open>modifier2\<close> is not \<open>modifier1 | 0b10000\<close>: for the usage code 0 (APIAKey) it is 8.
\<close>

theorem kdf_modifier2_counterexample:
  "kdf_modifier1 0 = 0 \<and> kdf_modifier2 0 = 8 \<and> kdf_modifier2 0 \<noteq> kdf_modifier1 0 OR 0b10000"
  by (simp add: kdf_modifier1_def kdf_modifier2_def)

text \<open>
  Claim C3 (amended). For every usage code, \<open>kdf\<close> builds \<open>modifier1\<close> as
  \<open>((usage & 0b1000) << 2) | (usage & 0b111)\<close>, whose bits 3 and 4 are 0, and \<open>modifier2\<close>
  as the same construction with bit 3 forced to 1 (\<open>modifier2 = modifier1 | 0b01000\<close>; bit 4
  stays 0); \<open>okey_lo\<close> is computed by the two \<open>modified_prince\<close> invocations keyed with this
  \<open>modifier2\<close>.
\<close>

theorem kdf_modifiers:
  "kdf_modifier1 usage = push_bit 2 (usage AND 0b1000) OR (usage AND 0b111)
   \<and> \<not> bit (kdf_modifier1 usage) 3 \<and> \<not> bit (kdf_modifier1 usage) 4
   \<and> kdf_modifier2 usage = kdf_modifier1 usage OR 0b1000
   \<and> bit (kdf_modifier2 usage) 3 \<and> \<not> bit (kdf_modifier2 usage) 4
   \<and> (\<exists>tmp2 okey_hi okey_lo.
        kdf ikey_hi ikey_lo data_hi data_lo usage = Some (okey_hi, okey_lo)
        \<and> modified_prince data_hi ikey_hi ikey_lo (kdf_modifier2 usage) = Some tmp2
        \<and> modified_prince (tmp2 XOR data_lo) ikey_hi ikey_lo (kdf_modifier2 usage) = Some okey_lo)"
proof -
  have b8: "bit (8::int) n \<longleftrightarrow> n = 3" for n
    using bit_exp_iff [where ?'a = int, of 3 n] by simp
  have b7: "bit (7::int) n \<longleftrightarrow> n < 3" for n
  proof -
    have "(7::int) = mask 3" by (simp add: mask_eq_exp_minus_1)
    then show ?thesis by (simp only: bit_mask_iff) simp
  qed
  have m1: "kdf_modifier1 usage = push_bit 2 (usage AND 8) OR (usage AND 7)"
    by (simp add: kdf_modifier1_def)
  have m2: "kdf_modifier2 usage = kdf_modifier1 usage OR 8"
    by (simp add: kdf_modifier1_def kdf_modifier2_def ac_simps)
  have n3: "\<not> bit (kdf_modifier1 usage) 3" and n4: "\<not> bit (kdf_modifier1 usage) 4"
    by (simp_all add: m1 bit_or_iff bit_and_iff bit_push_bit_iff b8 b7)
  have s3: "bit (kdf_modifier2 usage) 3" and s4: "\<not> bit (kdf_modifier2 usage) 4"
    using n4 by (simp_all add: m2 bit_or_iff b8)
  obtain tmp1 where t1: "modified_prince data_hi ikey_hi ikey_lo (kdf_modifier1 usage) = Some tmp1"
    using modified_prince_total by blast
  obtain okey_hi where
    oh: "modified_prince (tmp1 XOR data_lo) ikey_hi ikey_lo (kdf_modifier1 usage) = Some okey_hi"
    using modified_prince_total by blast
  obtain tmp2 where t2: "modified_prince data_hi ikey_hi ikey_lo (kdf_modifier2 usage) = Some tmp2"
    using modified_prince_total by blast
  obtain okey_lo where
    ol: "modified_prince (tmp2 XOR data_lo) ikey_hi ikey_lo (kdf_modifier2 usage) = Some okey_lo"
    using modified_prince_total by blast
  have "kdf ikey_hi ikey_lo data_hi data_lo usage = Some (okey_hi, okey_lo)"
    by (simp add: kdf_def t1 oh t2 ol)
  with t2 ol have "\<exists>tmp2 okey_hi okey_lo.
        kdf ikey_hi ikey_lo data_hi data_lo usage = Some (okey_hi, okey_lo)
        \<and> modified_prince data_hi ikey_hi ikey_lo (kdf_modifier2 usage) = Some tmp2
        \<and> modified_prince (tmp2 XOR data_lo) ikey_hi ikey_lo (kdf_modifier2 usage) = Some okey_lo"
    by blast
  with m1 m2 n3 n4 s3 s4 show ?thesis by simp
qed

end
